theory Spec2Isabelle
  imports Main "HOL-Library.Word" "HOL-Library.Monad_Syntax"
begin

section \<open>Data model (internal/pool/manager.go, internal/generator, client)\<close>

text \<open>
  Go's \<open>*big.Int\<close> and \<open>*paillier.PrivateKey\<close> are pointers and may be nil: they are
  \<open>option\<close> values here. \<open>int\<close> is the 64-bit \<open>int\<close> of the platforms the service is
  built for; the values compared below (slice lengths, configured sizes, a \<open>uint32\<close>
  count) are far from its bounds, so it is modelled by \<open>int\<close>. The \<open>int64\<close> counters
  are 64-bit words: \<open>+\<close> wraps as Go's does. \<open>time.Time\<close> and \<open>time.Duration\<close> are
  nanosecond counts. Mutexes, channels, the ticker and the pool file's path carry no
  data of their own and are left out of the records.
\<close>

type_synonym byte = "8 word"

record PrivateKey =
  PublicKey_N :: "int option"
  LambdaN :: "int option"
  PhiN :: "int option"
  P_sk :: "int option"
  Q_sk :: "int option"

record PreParamsData =
  PaillierKey :: "PrivateKey option"
  NTildei :: "int option"
  H1i :: "int option"
  H2i :: "int option"
  Alpha :: "int option"
  Beta :: "int option"
  P_pre :: "int option"
  Q_pre :: "int option"
  GeneratedAt :: int

record SimpleConfig =
  MinPoolSize :: int
  MaxPoolSize :: int
  RefillThreshold :: int
  PrimeBitSize :: int
  PaillierBitSize :: int
  MaxConcurrent :: int
  PoolDir :: string
  AutoSave :: bool
  BackgroundGen :: bool
  RefillInterval :: int

text \<open>
  The generator draws on the cryptographic library and the system's entropy. What the
  library returns on its \<open>k\<close>-th call is the stream \<open>library\<close>; \<open>calls\<close> is the number of
  calls made so far. \<open>generationCount\<close> is the generator's own counter.
\<close>

type_synonym outcome = "string + PreParamsData"

record Generator =
  generationCount :: "64 word"
  library :: "nat \<Rightarrow> outcome"
  calls :: nat

record Manager =
  config :: SimpleConfig
  generator :: Generator
  preParams :: "PreParamsData list"
  isGenerating :: bool
  isSaving :: bool
  startTime :: int
  totalGenerated :: "64 word"
  totalServed :: "64 word"

text \<open>
  The structure written to and read from \<open>prime_pool.json\<close>. A decoded array may be
  absent (a nil slice) and may hold null entries (nil pointers).
\<close>

record pool_data =
  PreParams :: "PreParamsData option list option"
  SavedAt :: int
  Config :: "SimpleConfig option"

text \<open>
  The pool file: missing, present but unreadable, or holding bytes of type \<open>'f\<close>.
  \<open>writable\<close> says whether \<open>ioutil.WriteFile\<close> succeeds.
\<close>

datatype 'f file_state = NotExist | Unreadable | Content 'f

record 'f disk =
  pool_file :: "'f file_state"
  writable :: bool

section \<open>Construction and persistence\<close>

definition second :: int where
  "second = 1000000000"

text \<open>\<open>NewManager\<close>, the block "Set defaults" (manager.go 87-111).\<close>

definition set_defaults :: "SimpleConfig \<Rightarrow> SimpleConfig" where
  "set_defaults c0 =
    (let c1 = (if MinPoolSize c0 = 0 then c0\<lparr>MinPoolSize := 10\<rparr> else c0);
         c2 = (if MaxPoolSize c1 = 0 then c1\<lparr>MaxPoolSize := 20\<rparr> else c1);
         c3 = (if RefillThreshold c2 = 0 then c2\<lparr>RefillThreshold := 5\<rparr> else c2);
         c4 = (if PrimeBitSize c3 = 0 then c3\<lparr>PrimeBitSize := 1024\<rparr> else c3);
         c5 = (if PaillierBitSize c4 = 0 then c4\<lparr>PaillierBitSize := 2048\<rparr> else c4);
         c6 = (if MaxConcurrent c5 = 0 then c5\<lparr>MaxConcurrent := 4\<rparr> else c5);
         c7 = (if PoolDir c6 = [] then c6\<lparr>PoolDir := ''./prime_pool''\<rparr> else c6);
         c8 = (if RefillInterval c7 = 0 then c7\<lparr>RefillInterval := 30 * second\<rparr> else c7)
     in c8)"

text \<open>
  \<open>loadFromDisk\<close> (manager.go 518-557). \<open>unmarshal\<close> is \<open>json.Unmarshal\<close> into the
  pool structure: an error, or the decoded structure.
\<close>

text \<open>The test of line 549: the entry is not nil and has a Paillier key.\<close>

definition kept :: "PreParamsData option \<Rightarrow> bool" where
  "kept param = (case param of None \<Rightarrow> False | Some p \<Rightarrow> PaillierKey p \<noteq> None)"

definition validParams :: "PreParamsData option list \<Rightarrow> PreParamsData list" where
  "validParams ps =
     concat (map (\<lambda>param. case param of
                     None \<Rightarrow> []
                   | Some p \<Rightarrow> (if kept param then [p] else [])) ps)"

definition loadFromDisk :: "('f \<Rightarrow> string + pool_data) \<Rightarrow> 'f file_state \<Rightarrow> Manager \<Rightarrow> Manager" where
  "loadFromDisk unmarshal f m =
     (case f of
        NotExist \<Rightarrow> m
      | Unreadable \<Rightarrow> m
      | Content bytes \<Rightarrow>
          (case unmarshal bytes of
             Inl err \<Rightarrow> m
           | Inr poolData \<Rightarrow>
               m\<lparr>preParams :=
                    validParams (case PreParams poolData of None \<Rightarrow> [] | Some ps \<Rightarrow> ps)\<rparr>))"

text \<open>\<open>NewManager\<close> (manager.go 86-129); \<open>now\<close> is the clock's reading.\<close>

definition NewManager ::
  "('f \<Rightarrow> string + pool_data) \<Rightarrow> 'f file_state \<Rightarrow> int \<Rightarrow> Generator \<Rightarrow> SimpleConfig \<Rightarrow> Manager" where
  "NewManager unmarshal f now gen cfg =
     loadFromDisk unmarshal f
       \<lparr>config = set_defaults cfg, generator = gen, preParams = [],
        isGenerating = False, isSaving = False, startTime = now,
        totalGenerated = 0, totalServed = 0\<rparr>"

text \<open>
  \<open>saveToDisk\<close> (manager.go 475-515). \<open>marshal\<close> is \<open>json.MarshalIndent\<close>. A call made
  while another save is running returns at once; otherwise \<open>isSaving\<close> is raised for the
  duration of the call and lowered again by the deferred function.
\<close>

definition saveToDisk ::
  "(pool_data \<Rightarrow> string + 'f) \<Rightarrow> int \<Rightarrow> Manager \<Rightarrow> 'f disk \<Rightarrow> Manager \<times> 'f disk" where
  "saveToDisk marshal now m d =
     (if isSaving m then (m, d)
      else
        (let data = \<lparr>PreParams = Some (map Some (preParams m)), SavedAt = now,
                     Config = Some (config m)\<rparr>
         in case marshal data of
              Inl err \<Rightarrow> (m\<lparr>isSaving := False\<rparr>, d)
            | Inr jsonData \<Rightarrow>
                (if writable d then (m\<lparr>isSaving := False\<rparr>, d\<lparr>pool_file := Content jsonData\<rparr>)
                 else (m\<lparr>isSaving := False\<rparr>, d))))"

text \<open>The zero value of \<open>SimpleConfig\<close>: every field absent.\<close>

definition zero_config :: SimpleConfig where
  "zero_config =
     \<lparr>MinPoolSize = 0, MaxPoolSize = 0, RefillThreshold = 0, PrimeBitSize = 0,
      PaillierBitSize = 0, MaxConcurrent = 0, PoolDir = [], AutoSave = False,
      BackgroundGen = False, RefillInterval = 0\<rparr>"

definition quiet_generator :: Generator where
  "quiet_generator = \<lparr>generationCount = 0, library = (\<lambda>k. Inl ''no entropy''), calls = 0\<rparr>"

section \<open>Generation\<close>

text \<open>
  \<open>Generator.GeneratePreParams\<close> (generator package). The key generation, the safe
  primes and the arithmetic on them belong to the library: the call's outcome (the
  error it wraps, or the bundle) is read off the stream. The deferred function counts
  the call whether it succeeds or not.
\<close>

definition GeneratePreParams :: "Generator \<Rightarrow> int \<Rightarrow> int \<Rightarrow> outcome \<times> Generator" where
  "GeneratePreParams g primeBitSize paillierBitSize =
     (library g (calls g),
      g\<lparr>generationCount := generationCount g + 1, calls := Suc (calls g)\<rparr>)"

text \<open>\<open>generateSinglePreParams\<close> (manager.go 252-277).\<close>

definition generateSinglePreParams :: "Manager \<Rightarrow> outcome \<times> Manager" where
  "generateSinglePreParams m =
     (case GeneratePreParams (generator m) (PrimeBitSize (config m)) (PaillierBitSize (config m)) of
        (Inl err, g) \<Rightarrow> (Inl (''failed to generate parameters: '' @ err), m\<lparr>generator := g\<rparr>)
      | (Inr params, g) \<Rightarrow>
          (Inr \<lparr>PaillierKey = PaillierKey params, NTildei = NTildei params,
                H1i = H1i params, H2i = H2i params, Alpha = Alpha params,
                Beta = Beta params, P_pre = P_pre params, Q_pre = Q_pre params,
                GeneratedAt = GeneratedAt params\<rparr>,
           m\<lparr>generator := g, totalGenerated := totalGenerated m + 1\<rparr>))"

section \<open>Serving\<close>

text \<open>
  \<open>Manager.GetPreParams\<close> (manager.go 169-222). The two goroutines it may start are
  reported as flags: \<open>refill_started\<close> for \<open>go m.refillPool()\<close> and \<open>save_started\<close>
  for \<open>go m.saveToDisk()\<close>. An error return carries no list (Go's \<open>nil\<close>).
\<close>

record get_out =
  returned :: "string + PreParamsData list"
  refill_started :: bool
  save_started :: bool

text \<open>The loop of lines 204-210, with the number of iterations still to run.\<close>

fun generate_remaining ::
  "nat \<Rightarrow> PreParamsData list \<Rightarrow> Manager \<Rightarrow> (string + PreParamsData list) \<times> Manager" where
  "generate_remaining 0 result m = (Inr result, m)"
| "generate_remaining (Suc i) result m =
     (case generateSinglePreParams m of
        (Inl err, m') \<Rightarrow> (Inl (''failed to generate params: '' @ err), m')
      | (Inr params, m') \<Rightarrow> generate_remaining i (result @ [params]) m')"

text \<open>Lines 170-198: what happens under the lock.\<close>

definition take_locked :: "Manager \<Rightarrow> 32 word \<Rightarrow> bool \<times> 32 word \<times> PreParamsData list \<times> Manager" where
  "take_locked m count0 =
     (let refill = (int (length (preParams m)) \<le> RefillThreshold (config m));
          count = (if count0 = 0 then 1 else count0);
          available = int (length (preParams m));
          take = (if uint count > available then available else uint count);
          result = (if available > 0 then List.take (nat take) (preParams m) else []);
          m1 = (if available > 0 then m\<lparr>preParams := drop (nat take) (preParams m)\<rparr> else m);
          m2 = m1\<lparr>totalServed := totalServed m1 + of_nat (length result)\<rparr>
      in (refill, count, result, m2))"

definition GetPreParams :: "Manager \<Rightarrow> 32 word \<Rightarrow> get_out \<times> Manager" where
  "GetPreParams m count0 =
     (case take_locked m count0 of
        (refill, count, result, m2) \<Rightarrow>
          (let remaining = uint count - int (length result) in
           if remaining > 0 then
             (case generate_remaining (nat remaining) result m2 of
                (Inl err, m3) \<Rightarrow>
                  (\<lparr>returned = Inl err, refill_started = refill, save_started = False\<rparr>, m3)
              | (Inr result', m3) \<Rightarrow>
                  (\<lparr>returned = Inr result', refill_started = refill,
                    save_started = AutoSave (config m3)\<rparr>,
                   m3\<lparr>totalServed := totalServed m3 + of_int remaining\<rparr>))
           else
             (\<lparr>returned = Inr result, refill_started = refill,
               save_started = AutoSave (config m2)\<rparr>, m2)))"

section \<open>Refill\<close>

text \<open>
  The collector's handling of one bundle read from the channel (manager.go 406-423),
  which says whether the bundle was kept.
\<close>

definition refillPool_collect :: "Manager \<Rightarrow> PreParamsData \<Rightarrow> bool \<times> Manager" where
  "refillPool_collect m preParamsData =
     (if int (length (preParams m)) < MaxPoolSize (config m)
      then (True, m\<lparr>preParams := preParams m @ [preParamsData]\<rparr>)
      else (False, m))"

section \<open>Traces\<close>

text \<open>
  Callers and refill workers run side by side. A run is a sequence of their steps on
  the shared manager, each step being one stretch of code between two points where
  another goroutine can act on the manager.

  A call of \<open>GetPreParams\<close> that has left the locked section with bundles still to
  generate is a frame of its local variables: \<open>count\<close>, \<open>result\<close>, \<open>remaining\<close> and the
  loop index \<open>i\<close>. Its steps are the iterations of the loop of lines 204-210, each with
  one call of \<open>generateSinglePreParams\<close>, and then lines 211-221.

  A worker of \<open>refillPool\<close> (manager.go 340-379) is at the reading of the pool's size
  (lines 354-361), at the call of the generator (lines 363-367), or holds a bundle to
  send on the channel (lines 373-377). When \<open>refillPool\<close> starts its workers depends
  on the clock, the number of processors and \<open>isGenerating\<close>; here a worker may start
  at any time, which covers every start the code makes. The stop channel is left out.

  Within a step, \<open>generateSinglePreParams\<close> is taken whole: the generator's return and
  the increment \<open>m.totalGenerated++\<close> that follows it (line 264, made without the
  lock) are not interleaved with another goroutine's increment.
\<close>

record frame =
  f_count :: "32 word"
  f_result :: "PreParamsData list"
  f_remaining :: nat
  f_i :: nat

datatype worker = AtCheck | AtGenerate | AtSend PreParamsData

record world =
  manager :: Manager
  paramsCh :: "PreParamsData list"
  frames :: "frame list"
  workers :: "worker list"

datatype event = Enter "32 word" | CallStep nat | Spawn | WorkerStep nat | Collect

text \<open>
  What a caller sees when its call returns: the count it asked for (normalised), the
  number of bundles the call had taken out of the pool, and what came back.
\<close>

datatype observation = Returned "32 word" nat "string + PreParamsData list" | Silent

definition drop_nth :: "nat \<Rightarrow> 'a list \<Rightarrow> 'a list" where
  "drop_nth n xs = take n xs @ drop (Suc n) xs"

text \<open>The bundles of a frame's \<open>result\<close> that came out of the pool.\<close>

definition taken :: "frame \<Rightarrow> nat" where
  "taken f = length (f_result f) - f_i f"

text \<open>
  A caller enters \<open>GetPreParams\<close> and runs lines 170-202: the locked section and the
  computation of \<open>remaining\<close>. With nothing to generate the call returns.
\<close>

definition enter :: "32 word \<Rightarrow> world \<Rightarrow> observation \<times> world" where
  "enter count0 w =
     (case take_locked (manager w) count0 of
        (refill, count, result, m2) \<Rightarrow>
          (let remaining = uint count - int (length result) in
           if remaining > 0 then
             (Silent,
              w\<lparr>manager := m2,
                frames := frames w @ [\<lparr>f_count = count, f_result = result,
                                        f_remaining = nat remaining, f_i = 0\<rparr>]\<rparr>)
           else (Returned count (length result) (Inr result), w\<lparr>manager := m2\<rparr>)))"

text \<open>
  The next step of the \<open>n\<close>-th call in progress: one iteration of the loop (lines
  204-210), or, after the loop, lines 211-221.
\<close>

definition call_step :: "nat \<Rightarrow> world \<Rightarrow> observation \<times> world" where
  "call_step n w =
     (if n < length (frames w) then
        (let f = frames w ! n in
         if f_i f < f_remaining f then
           (case generateSinglePreParams (manager w) of
              (Inl err, m') \<Rightarrow>
                (Returned (f_count f) (taken f) (Inl (''failed to generate params: '' @ err)),
                 w\<lparr>manager := m', frames := drop_nth n (frames w)\<rparr>)
            | (Inr params, m') \<Rightarrow>
                (Silent,
                 w\<lparr>manager := m',
                   frames := (frames w)[n := f\<lparr>f_result := f_result f @ [params],
                                                f_i := f_i f + 1\<rparr>]\<rparr>))
         else
           (Returned (f_count f) (taken f) (Inr (f_result f)),
            w\<lparr>manager := (manager w)\<lparr>totalServed := totalServed (manager w)
                                           + of_nat (f_remaining f)\<rparr>,
              frames := drop_nth n (frames w)\<rparr>))
      else (Silent, w))"

text \<open>The next step of the \<open>n\<close>-th worker.\<close>

definition worker_step :: "nat \<Rightarrow> world \<Rightarrow> world" where
  "worker_step n w =
     (if n < length (workers w) then
        (case workers w ! n of
           AtCheck \<Rightarrow>
             (if int (length (preParams (manager w))) \<ge> MinPoolSize (config (manager w))
              then w\<lparr>workers := drop_nth n (workers w)\<rparr>
              else w\<lparr>workers := (workers w)[n := AtGenerate]\<rparr>)
         | AtGenerate \<Rightarrow>
             (case generateSinglePreParams (manager w) of
                (Inl err, m') \<Rightarrow> w\<lparr>manager := m', workers := drop_nth n (workers w)\<rparr>
              | (Inr params, m') \<Rightarrow> w\<lparr>manager := m', workers := (workers w)[n := AtSend params]\<rparr>)
         | AtSend params \<Rightarrow>
             w\<lparr>paramsCh := paramsCh w @ [params], workers := (workers w)[n := AtCheck]\<rparr>)
      else w)"

text \<open>The collector reads one bundle from the channel (manager.go 400-423).\<close>

definition collect :: "world \<Rightarrow> world" where
  "collect w =
     (case paramsCh w of
        [] \<Rightarrow> w
      | p # ps \<Rightarrow> w\<lparr>manager := snd (refillPool_collect (manager w) p), paramsCh := ps\<rparr>)"

fun step :: "event \<Rightarrow> world \<Rightarrow> observation \<times> world" where
  "step (Enter c) w = enter c w"
| "step (CallStep n) w = call_step n w"
| "step Spawn w = (Silent, w\<lparr>workers := workers w @ [AtCheck]\<rparr>)"
| "step (WorkerStep n) w = (Silent, worker_step n w)"
| "step Collect w = (Silent, collect w)"

fun run :: "event list \<Rightarrow> world \<Rightarrow> observation list \<times> world" where
  "run [] w = ([], w)"
| "run (e # es) w =
     (case step e w of (ob, w') \<Rightarrow> (case run es w' of (obs, w'') \<Rightarrow> (ob # obs, w'')))"

text \<open>The bundles a caller received in one observation.\<close>

fun received :: "observation \<Rightarrow> nat" where
  "received (Returned c k (Inr bundles)) = length bundles"
| "received (Returned c k (Inl err)) = 0"
| "received Silent = 0"

text \<open>
  The bundles a call took out of the pool and did not hand over: those of a call that
  failed.
\<close>

fun lost :: "observation \<Rightarrow> nat" where
  "lost (Returned c k (Inr bundles)) = 0"
| "lost (Returned c k (Inl err)) = k"
| "lost Silent = 0"

text \<open>The bundles taken out of the pool by the calls in progress.\<close>

definition in_progress :: "world \<Rightarrow> nat" where
  "in_progress w = sum_list (map taken (frames w))"

text \<open>
  The frames a run can produce: the loop index is within its bound and counts the
  bundles appended to \<open>result\<close>.
\<close>

definition frame_ok :: "frame \<Rightarrow> bool" where
  "frame_ok f = (f_i f \<le> f_remaining f \<and> f_i f \<le> length (f_result f))"

text \<open>The successful returns among the library's calls \<open>i, ..., j - 1\<close>.\<close>

definition successes :: "(nat \<Rightarrow> outcome) \<Rightarrow> nat \<Rightarrow> nat \<Rightarrow> nat" where
  "successes lib i j = length (filter (\<lambda>k. \<not> isl (lib k)) [i..<j])"

section \<open>The service and its client\<close>

text \<open>
  \<open>big.Int.Bytes\<close> is the big-endian absolute value without leading zeros;
  \<open>big.Int.SetBytes\<close> reads a big-endian unsigned value.
\<close>

fun nat_bytes :: "nat \<Rightarrow> byte list" where
  "nat_bytes n = (if n = 0 then [] else nat_bytes (n div 256) @ [of_nat (n mod 256)])"

definition Bytes :: "int \<Rightarrow> byte list" where
  "Bytes x = nat_bytes (nat \<bar>x\<bar>)"

definition SetBytes :: "byte list \<Rightarrow> int" where
  "SetBytes buf = int (foldl (\<lambda>acc b. acc * 256 + unat b) 0 buf)"

record pb_PreParamsData =
  PaillierP :: "byte list"
  PaillierQ :: "byte list"
  PaillierN :: "byte list"
  PaillierPhiN :: "byte list"
  PaillierLambdaN :: "byte list"
  NTildei_pb :: "byte list"
  H1I :: "byte list"
  H2I :: "byte list"
  Alpha_pb :: "byte list"
  Beta_pb :: "byte list"
  P_pb :: "byte list"
  Q_pb :: "byte list"
  GeneratedAt_pb :: int

record GetPreParamsResponse =
  Params :: "pb_PreParamsData list"
  GenerationTimeMs :: int

datatype code = InvalidArgument | Internal

datatype failure = Status code string | NilPointerPanic

text \<open>
  The conversion of one bundle in \<open>Server.GetPreParams\<close> (server.go 55-69). Reading a
  field through a nil pointer panics: \<open>None\<close>.
\<close>

definition to_pb :: "PreParamsData \<Rightarrow> pb_PreParamsData option" where
  "to_pb params =
     do {
       key \<leftarrow> PaillierKey params;
       kp \<leftarrow> P_sk key;
       kq \<leftarrow> Q_sk key;
       kn \<leftarrow> PublicKey_N key;
       kphi \<leftarrow> PhiN key;
       klam \<leftarrow> LambdaN key;
       nt \<leftarrow> NTildei params;
       h1 \<leftarrow> H1i params;
       h2 \<leftarrow> H2i params;
       al \<leftarrow> Alpha params;
       be \<leftarrow> Beta params;
       p \<leftarrow> P_pre params;
       q \<leftarrow> Q_pre params;
       Some \<lparr>PaillierP = Bytes kp, PaillierQ = Bytes kq, PaillierN = Bytes kn,
             PaillierPhiN = Bytes kphi, PaillierLambdaN = Bytes klam,
             NTildei_pb = Bytes nt, H1I = Bytes h1, H2I = Bytes h2,
             Alpha_pb = Bytes al, Beta_pb = Bytes be, P_pb = Bytes p, Q_pb = Bytes q,
             GeneratedAt_pb = GeneratedAt params div second\<rparr>
     }"

text \<open>
  \<open>Server.GetPreParams\<close> (server.go 31-76); \<open>elapsed\<close> is the time the call took, in
  milliseconds.
\<close>

definition Server_GetPreParams ::
  "Manager \<Rightarrow> 32 word \<Rightarrow> int \<Rightarrow> (failure + GetPreParamsResponse) \<times> Manager" where
  "Server_GetPreParams m req_count elapsed =
     (let count = (if req_count = 0 then 1 else req_count) in
      if count > 100
      then (Inl (Status InvalidArgument ''count must be between 1 and 100''), m)
      else
        (case GetPreParams m count of
           (out, m') \<Rightarrow>
             (case returned out of
                Inl err \<Rightarrow> (Inl (Status Internal (''failed to get pre-params: '' @ err)), m')
              | Inr paramsList \<Rightarrow>
                  (case those (map to_pb paramsList) of
                     None \<Rightarrow> (Inl NilPointerPanic, m')
                   | Some pbParams \<Rightarrow>
                       (Inr \<lparr>Params = pbParams, GenerationTimeMs = elapsed\<rparr>, m')))))"

text \<open>
  \<open>PrimeServiceClient.GetPreParams\<close> (client.go 43-84); \<open>rpc\<close> is the remote call: an
  error, or the service's response.
\<close>

definition from_pb :: "pb_PreParamsData \<Rightarrow> PreParamsData" where
  "from_pb params =
     \<lparr>PaillierKey = Some \<lparr>PublicKey_N = Some (SetBytes (PaillierN params)),
                           LambdaN = Some (SetBytes (PaillierLambdaN params)),
                           PhiN = Some (SetBytes (PaillierPhiN params)),
                           P_sk = Some (SetBytes (PaillierP params)),
                           Q_sk = Some (SetBytes (PaillierQ params))\<rparr>,
      NTildei = Some (SetBytes (NTildei_pb params)),
      H1i = Some (SetBytes (H1I params)),
      H2i = Some (SetBytes (H2I params)),
      Alpha = Some (SetBytes (Alpha_pb params)),
      Beta = Some (SetBytes (Beta_pb params)),
      P_pre = Some (SetBytes (P_pb params)),
      Q_pre = Some (SetBytes (Q_pb params)),
      GeneratedAt = GeneratedAt_pb params * second\<rparr>"

definition Client_GetPreParams ::
  "(32 word \<Rightarrow> string + GetPreParamsResponse) \<Rightarrow> 32 word \<Rightarrow> string + PreParamsData list" where
  "Client_GetPreParams rpc count0 =
     (let count = (if count0 = 0 then 1 else count0) in
      case rpc count of
        Inl err \<Rightarrow> Inl (''failed to get pre-params: '' @ err)
      | Inr resp \<Rightarrow>
          (if length (Params resp) = 0 then Inl ''no parameters returned from service''
           else Inr (map from_pb (Params resp))))"

section \<open>Auxiliary notions\<close>

text \<open>
  The number of bundles a call takes out of the pool, and the manager as the locked
  section of \<open>GetPreParams\<close> leaves it.
\<close>

definition pool_part :: "Manager \<Rightarrow> 32 word \<Rightarrow> nat" where
  "pool_part m c = min (unat (if c = 0 then 1 else c)) (length (preParams m))"

definition after_take :: "Manager \<Rightarrow> 32 word \<Rightarrow> Manager" where
  "after_take m c =
     m\<lparr>preParams := drop (pool_part m c) (preParams m),
       totalServed := totalServed m + of_nat (pool_part m c)\<rparr>"

text \<open>
  A codec round-trips a pool structure when encoding it succeeds and decoding the
  bytes gives back the same array of bundles.
\<close>

definition round_trip ::
  "(pool_data \<Rightarrow> string + 'f) \<Rightarrow> ('f \<Rightarrow> string + pool_data) \<Rightarrow> pool_data \<Rightarrow> bool" where
  "round_trip marshal unmarshal d =
     (case marshal d of
        Inl err \<Rightarrow> False
      | Inr bytes \<Rightarrow>
          (case unmarshal bytes of
             Inl err \<Rightarrow> False
           | Inr d' \<Rightarrow> PreParams d' = PreParams d))"

subsection \<open>Concrete pools\<close>

text \<open>
  A complete bundle tagged \<open>k\<close>, a small configuration, a generator whose library
  returns the bundles \<open>3, 4, ...\<close>, and a manager holding a given pool.
\<close>

definition sample :: "int \<Rightarrow> PreParamsData" where
  "sample k =
     \<lparr>PaillierKey = Some \<lparr>PublicKey_N = Some k, LambdaN = Some k, PhiN = Some k,
                           P_sk = Some k, Q_sk = Some k\<rparr>,
      NTildei = Some k, H1i = Some k, H2i = Some k, Alpha = Some k, Beta = Some k,
      P_pre = Some k, Q_pre = Some k, GeneratedAt = k\<rparr>"

definition small_config :: SimpleConfig where
  "small_config =
     \<lparr>MinPoolSize = 2, MaxPoolSize = 2, RefillThreshold = 1, PrimeBitSize = 1024,
      PaillierBitSize = 2048, MaxConcurrent = 1, PoolDir = ''./prime_pool'',
      AutoSave = False, BackgroundGen = False, RefillInterval = 30 * second\<rparr>"

definition stub_generator :: Generator where
  "stub_generator =
     \<lparr>generationCount = 0, library = (\<lambda>k. Inr (sample (int k + 3))), calls = 0\<rparr>"

definition manager_with :: "PreParamsData list \<Rightarrow> Generator \<Rightarrow> Manager" where
  "manager_with pool gen =
     \<lparr>config = small_config, generator = gen, preParams = pool,
      isGenerating = False, isSaving = False, startTime = 0,
      totalGenerated = 0, totalServed = 0\<rparr>"

definition world_with :: "PreParamsData list \<Rightarrow> Generator \<Rightarrow> world" where
  "world_with pool gen =
     \<lparr>manager = manager_with pool gen, paramsCh = [], frames = [], workers = []\<rparr>"

text \<open>The identity codec on pool structures: the file holds the structure itself.\<close>

definition plain_marshal :: "pool_data \<Rightarrow> string + pool_data" where
  "plain_marshal d = Inr d"

definition plain_unmarshal :: "pool_data \<Rightarrow> string + pool_data" where
  "plain_unmarshal d = Inr d"

text \<open>
  Three pool files: three complete entries; three entries of which the second has no
  \<open>n_tildei\<close>; three entries of which the second has no \<open>paillier_key\<close>.
\<close>

definition three_entries :: pool_data where
  "three_entries =
     \<lparr>PreParams = Some [Some (sample 1), Some (sample 2), Some (sample 3)],
      SavedAt = 0, Config = None\<rparr>"

definition missing_n_tildei :: pool_data where
  "missing_n_tildei =
     \<lparr>PreParams = Some [Some (sample 1), Some ((sample 2)\<lparr>NTildei := None\<rparr>), Some (sample 3)],
      SavedAt = 0, Config = None\<rparr>"

definition missing_paillier_key :: pool_data where
  "missing_paillier_key =
     \<lparr>PreParams = Some [Some (sample 1), Some ((sample 2)\<lparr>PaillierKey := None\<rparr>), Some (sample 3)],
      SavedAt = 0, Config = None\<rparr>"

section \<open>The launcher\<close>

text \<open>
  The launcher (\<open>cmd/server/main.go\<close>) reads a configuration file, fills in its own
  defaults, and hands the pool's part to \<open>NewManager\<close>. \<open>decoded\<close> is the outcome of
  opening and decoding the file. \<open>PaillierBitSize\<close> is not among the launcher's fields
  and reaches \<open>NewManager\<close> as 0; the interval is given in seconds.
\<close>

record main_Config =
  Server_Address :: string
  Pool_MinPoolSize :: int
  Pool_MaxPoolSize :: int
  Pool_RefillThreshold :: int
  Pool_PrimeBitSize :: int
  Pool_MaxConcurrent :: int
  Pool_PoolDir :: string
  Pool_AutoSave :: bool
  Pool_BackgroundGen :: bool
  Pool_RefillInterval :: int
  Logging_Level :: string

definition loadConfig :: "string + main_Config \<Rightarrow> string + main_Config" where
  "loadConfig decoded =
     (case decoded of
        Inl err \<Rightarrow> Inl err
      | Inr c0 \<Rightarrow>
          (let c1 = (if Server_Address c0 = [] then c0\<lparr>Server_Address := '':50055''\<rparr> else c0);
               c2 = (if Pool_PoolDir c1 = [] then c1\<lparr>Pool_PoolDir := ''./prime_pool''\<rparr> else c1);
               c3 = (if Pool_MinPoolSize c2 = 0 then c2\<lparr>Pool_MinPoolSize := 10\<rparr> else c2);
               c4 = (if Pool_MaxPoolSize c3 = 0 then c3\<lparr>Pool_MaxPoolSize := 20\<rparr> else c3);
               c5 = (if Pool_RefillThreshold c4 = 0 then c4\<lparr>Pool_RefillThreshold := 5\<rparr> else c4);
               c6 = (if Pool_PrimeBitSize c5 = 0 then c5\<lparr>Pool_PrimeBitSize := 1024\<rparr> else c5);
               c7 = (if Pool_MaxConcurrent c6 = 0 then c6\<lparr>Pool_MaxConcurrent := 2\<rparr> else c6);
               c8 = (if Pool_RefillInterval c7 = 0 then c7\<lparr>Pool_RefillInterval := 30\<rparr> else c7)
           in Inr c8))"

definition main_simpleConfig :: "string + main_Config \<Rightarrow> SimpleConfig" where
  "main_simpleConfig decoded =
     (let config =
        (case loadConfig decoded of
           Inl err \<Rightarrow>
             \<lparr>Server_Address = '':50055'', Pool_MinPoolSize = 10, Pool_MaxPoolSize = 20,
              Pool_RefillThreshold = 5, Pool_PrimeBitSize = 1024, Pool_MaxConcurrent = 2,
              Pool_PoolDir = ''./prime_pool'', Pool_AutoSave = True, Pool_BackgroundGen = True,
              Pool_RefillInterval = 30, Logging_Level = []\<rparr>
         | Inr c \<Rightarrow> c)
      in \<lparr>MinPoolSize = Pool_MinPoolSize config, MaxPoolSize = Pool_MaxPoolSize config,
          RefillThreshold = Pool_RefillThreshold config, PrimeBitSize = Pool_PrimeBitSize config,
          PaillierBitSize = 0, MaxConcurrent = Pool_MaxConcurrent config,
          PoolDir = Pool_PoolDir config, AutoSave = Pool_AutoSave config,
          BackgroundGen = Pool_BackgroundGen config,
          RefillInterval = Pool_RefillInterval config * second\<rparr>)"

definition empty_main_Config :: main_Config where
  "empty_main_Config =
     \<lparr>Server_Address = [], Pool_MinPoolSize = 0, Pool_MaxPoolSize = 0,
      Pool_RefillThreshold = 0, Pool_PrimeBitSize = 0, Pool_MaxConcurrent = 0,
      Pool_PoolDir = [], Pool_AutoSave = False, Pool_BackgroundGen = False,
      Pool_RefillInterval = 0, Logging_Level = []\<rparr>"

section \<open>Invariants of a run\<close>

text \<open>
  Every bundle in the pool, in the channel and in a worker's hands has its Paillier
  key; every bundle the library returns has one.
\<close>

definition keyed_worker :: "worker \<Rightarrow> bool" where
  "keyed_worker x = (case x of AtSend p \<Rightarrow> PaillierKey p \<noteq> None | _ \<Rightarrow> True)"

definition keyed_world :: "world \<Rightarrow> bool" where
  "keyed_world w =
     ((\<forall>p\<in>set (preParams (manager w)). PaillierKey p \<noteq> None) \<and>
      (\<forall>p\<in>set (paramsCh w). PaillierKey p \<noteq> None) \<and>
      (\<forall>x\<in>set (workers w). keyed_worker x))"

definition keyed_library :: "(nat \<Rightarrow> outcome) \<Rightarrow> bool" where
  "keyed_library lib = (\<forall>k. case lib k of Inl err \<Rightarrow> True | Inr p \<Rightarrow> PaillierKey p \<noteq> None)"

text \<open>Every frame of the world is one a run can produce.\<close>

definition frames_ok :: "world \<Rightarrow> bool" where
  "frames_ok w = (\<forall>f\<in>set (frames w). frame_ok f)"

text \<open>
  The balance of one step, or of a run: what \<open>totalServed\<close> has counted, against
  what callers received, what failed calls lost and what calls in progress hold; what
  \<open>totalGenerated\<close> has counted, against the library's successful returns.
\<close>

definition balanced :: "world \<Rightarrow> observation \<Rightarrow> world \<Rightarrow> bool" where
  "balanced w ob w' =
     (totalServed (manager w') + of_nat (in_progress w)
        = totalServed (manager w) + of_nat (received ob + lost ob + in_progress w') \<and>
      totalGenerated (manager w') = totalGenerated (manager w)
        + of_nat (successes (library (generator (manager w))) (calls (generator (manager w)))
                    (calls (generator (manager w')))) \<and>
      library (generator (manager w')) = library (generator (manager w)) \<and>
      calls (generator (manager w)) \<le> calls (generator (manager w')) \<and>
      frames_ok w')"

section \<open>Defaults\<close>


lemma config_loadFromDisk: "config (loadFromDisk unmarshal f m) = config m"
  by (simp add: loadFromDisk_def split: file_state.splits sum.splits)

lemma config_NewManager: "config (NewManager unmarshal f now gen cfg) = set_defaults cfg"
  by (simp add: NewManager_def config_loadFromDisk)

section \<open>The generator loop\<close>

lemma gsp_fields:
  "config (snd (generateSinglePreParams m)) = config m"
  "preParams (snd (generateSinglePreParams m)) = preParams m"
  "totalServed (snd (generateSinglePreParams m)) = totalServed m"
  "library (generator (snd (generateSinglePreParams m))) = library (generator m)"
  "calls (generator (snd (generateSinglePreParams m))) = Suc (calls (generator m))"
  by (simp_all add: generateSinglePreParams_def GeneratePreParams_def split: sum.splits)

lemma gsp_result:
  "isl (fst (generateSinglePreParams m)) = isl (library (generator m) (calls (generator m)))"
  by (simp add: generateSinglePreParams_def GeneratePreParams_def split: sum.splits)

lemma gsp_totalGenerated:
  "totalGenerated (snd (generateSinglePreParams m)) =
     totalGenerated m + (if isl (library (generator m) (calls (generator m))) then 0 else 1)"
  by (simp add: generateSinglePreParams_def GeneratePreParams_def split: sum.splits)

lemma successes_same: "successes lib i i = 0"
  by (simp add: successes_def)

lemma successes_step:
  "successes lib i (Suc i) = (if isl (lib i) then 0 else 1)"
  by (simp add: successes_def)

lemma successes_append:
  "i \<le> j \<Longrightarrow> j \<le> k \<Longrightarrow> successes lib i j + successes lib j k = successes lib i k"
proof -
  assume "i \<le> j" "j \<le> k"
  then have "[i..<k] = [i..<j] @ [j..<k]"
    by (metis le_Suc_ex upt_add_eq_append)
  then show ?thesis by (simp add: successes_def)
qed

lemma gr_fields:
  "config (snd (generate_remaining n acc m)) = config m \<and>
   preParams (snd (generate_remaining n acc m)) = preParams m \<and>
   totalServed (snd (generate_remaining n acc m)) = totalServed m \<and>
   library (generator (snd (generate_remaining n acc m))) = library (generator m) \<and>
   calls (generator m) \<le> calls (generator (snd (generate_remaining n acc m)))"
proof (induction n arbitrary: acc m)
  case 0
  then show ?case by simp
next
  case (Suc n)
  obtain r m' where g: "generateSinglePreParams m = (r, m')" by (cases "generateSinglePreParams m")
  have f: "config m' = config m" "preParams m' = preParams m" "totalServed m' = totalServed m"
    "library (generator m') = library (generator m)" "calls (generator m') = Suc (calls (generator m))"
    using gsp_fields [of m] g by simp_all
  show ?case
  proof (cases r)
    case (Inl e)
    then show ?thesis using g f by simp
  next
    case (Inr p)
    then show ?thesis using g f Suc.IH [of "acc @ [p]" m'] by simp
  qed
qed

lemma gr_totalGenerated:
  "totalGenerated (snd (generate_remaining n acc m)) =
     totalGenerated m + of_nat (successes (library (generator m)) (calls (generator m))
        (calls (generator (snd (generate_remaining n acc m)))))"
proof (induction n arbitrary: acc m)
  case 0
  then show ?case by (simp add: successes_same)
next
  case (Suc n)
  obtain r m' where g: "generateSinglePreParams m = (r, m')" by (cases "generateSinglePreParams m")
  have f: "library (generator m') = library (generator m)" "calls (generator m') = Suc (calls (generator m))"
    using gsp_fields [of m] g by simp_all
  have t: "totalGenerated m' = totalGenerated m + (if isl (library (generator m) (calls (generator m))) then 0 else 1)"
    using gsp_totalGenerated [of m] g by simp
  have rl: "isl r = isl (library (generator m) (calls (generator m)))"
    using gsp_result [of m] g by simp
  show ?case
  proof (cases r)
    case (Inl e)
    then show ?thesis using g f t rl by (simp add: successes_step)
  next
    case (Inr p)
    let ?m'' = "snd (generate_remaining n (acc @ [p]) m')"
    have le: "Suc (calls (generator m)) \<le> calls (generator ?m'')"
      using gr_fields [of n "acc @ [p]" m'] f by simp
    have "successes (library (generator m)) (calls (generator m)) (Suc (calls (generator m)))
          + successes (library (generator m)) (Suc (calls (generator m))) (calls (generator ?m''))
          = successes (library (generator m)) (calls (generator m)) (calls (generator ?m''))"
      using le by (intro successes_append) simp_all
    then have eq: "successes (library (generator m)) (calls (generator m)) (calls (generator ?m''))
          = Suc (successes (library (generator m)) (Suc (calls (generator m))) (calls (generator ?m'')))"
      using rl Inr by (simp add: successes_step)
    have "totalGenerated ?m'' = totalGenerated m + 1
          + of_nat (successes (library (generator m)) (Suc (calls (generator m))) (calls (generator ?m'')))"
      using Suc.IH [of "acc @ [p]" m'] f t rl Inr by simp
    then show ?thesis
      using g Inr by (simp add: eq)
  qed
qed

lemma gr_success_length:
  "fst (generate_remaining n acc m) = Inr r \<Longrightarrow> length r = length acc + n"
proof (induction n arbitrary: acc m)
  case 0
  then show ?case by simp
next
  case (Suc n)
  obtain x m' where g: "generateSinglePreParams m = (x, m')" by (cases "generateSinglePreParams m")
  show ?case
  proof (cases x)
    case (Inl e)
    then show ?thesis using g Suc.prems by simp
  next
    case (Inr p)
    then show ?thesis using g Suc.prems Suc.IH [of "acc @ [p]" m'] by simp
  qed
qed

lemma gr_success_prefix:
  "fst (generate_remaining n acc m) = Inr r \<Longrightarrow> take (length acc) r = acc"
proof (induction n arbitrary: acc m)
  case 0
  then show ?case by simp
next
  case (Suc n)
  obtain x m' where g: "generateSinglePreParams m = (x, m')" by (cases "generateSinglePreParams m")
  show ?case
  proof (cases x)
    case (Inl e)
    then show ?thesis using g Suc.prems by simp
  next
    case (Inr p)
    then have "take (length (acc @ [p])) r = acc @ [p]"
      using g Suc.prems Suc.IH [of "acc @ [p]" m'] by simp
    then have "take (length acc) (take (length (acc @ [p])) r) = take (length acc) (acc @ [p])"
      by simp
    then show ?thesis by (simp add: min_def)
  qed
qed

lemma gr_failure:
  "i < n \<Longrightarrow> isl (library (generator m) (calls (generator m) + i)) \<Longrightarrow>
   isl (fst (generate_remaining n acc m))"
proof (induction n arbitrary: acc m i)
  case 0
  then show ?case by simp
next
  case (Suc n)
  obtain x m' where g: "generateSinglePreParams m = (x, m')" by (cases "generateSinglePreParams m")
  have f: "library (generator m') = library (generator m)" "calls (generator m') = Suc (calls (generator m))"
    using gsp_fields [of m] g by simp_all
  have rl: "isl x = isl (library (generator m) (calls (generator m)))"
    using gsp_result [of m] g by simp
  show ?case
  proof (cases x)
    case (Inl e)
    then show ?thesis using g by simp
  next
    case (Inr p)
    then have "i \<noteq> 0" using rl Suc.prems(2) by (cases i) auto
    then obtain j where j: "i = Suc j" by (cases i) auto
    then have "isl (fst (generate_remaining n (acc @ [p]) m'))"
      using Suc.IH [of j m' "acc @ [p]"] Suc.prems f by simp
    then show ?thesis using g Inr by simp
  qed
qed

section \<open>GetPreParams\<close>

lemma take_locked_eq:
  "take_locked m c =
     (int (length (preParams m)) \<le> RefillThreshold (config m),
      (if c = 0 then 1 else c),
      take (min (unat (if c = 0 then 1 else c)) (length (preParams m))) (preParams m),
      m\<lparr>preParams := drop (min (unat (if c = 0 then 1 else c)) (length (preParams m))) (preParams m),
        totalServed := totalServed m
           + of_nat (min (unat (if c = 0 then 1 else c)) (length (preParams m)))\<rparr>)"
proof -
  define n where "n = (if c = 0 then 1 else c)"
  have u: "uint n = int (unat n)" by simp
  show ?thesis
  proof (cases "preParams m = []")
    case True
    then show ?thesis by (simp add: take_locked_def Let_def)
  next
    case False
    then have pos: "int (length (preParams m)) > 0" by simp
    show ?thesis
    proof (cases "unat n > length (preParams m)")
      case True
      then have "uint n > int (length (preParams m))" unfolding u by linarith
      then show ?thesis using pos True
        by (simp add: take_locked_def Let_def n_def [symmetric] min_def)
    next
      case False
      then have "\<not> uint n > int (length (preParams m))" unfolding u by linarith
      then show ?thesis using pos False
        by (simp add: take_locked_def Let_def n_def [symmetric] min_def)
    qed
  qed
qed

lemma take_locked_parts:
  "take_locked m c =
     (int (length (preParams m)) \<le> RefillThreshold (config m), (if c = 0 then 1 else c),
      take (pool_part m c) (preParams m), after_take m c)"
  by (simp add: take_locked_eq pool_part_def after_take_def)

lemma GetPreParams_full:
  "pool_part m c = unat (if c = 0 then 1 else c) \<Longrightarrow>
   GetPreParams m c =
     (\<lparr>returned = Inr (take (pool_part m c) (preParams m)),
       refill_started = (int (length (preParams m)) \<le> RefillThreshold (config m)),
       save_started = AutoSave (config m)\<rparr>, after_take m c)"
  by (simp add: GetPreParams_def take_locked_parts Let_def after_take_def pool_part_def)

lemma GetPreParams_short:
  assumes "pool_part m c < unat (if c = 0 then 1 else c)"
  shows "GetPreParams m c =
     (case generate_remaining (unat (if c = 0 then 1 else c) - pool_part m c)
             (take (pool_part m c) (preParams m)) (after_take m c) of
        (Inl err, m3) \<Rightarrow>
          (\<lparr>returned = Inl err,
            refill_started = (int (length (preParams m)) \<le> RefillThreshold (config m)),
            save_started = False\<rparr>, m3)
      | (Inr result', m3) \<Rightarrow>
          (\<lparr>returned = Inr result',
            refill_started = (int (length (preParams m)) \<le> RefillThreshold (config m)),
            save_started = AutoSave (config m3)\<rparr>,
           m3\<lparr>totalServed := totalServed m3
                + of_nat (unat (if c = 0 then 1 else c) - pool_part m c)\<rparr>))"
proof -
  define n where "n = (if c = 0 then 1 else c)"
  define k where "k = pool_part m c"
  have kn: "k < unat n" using assms by (simp add: n_def k_def)
  have kl: "k \<le> length (preParams m)" by (simp add: k_def pool_part_def)
  have len: "length (take k (preParams m)) = k" using kl by simp
  have u: "uint n = int (unat n)" by simp
  have r: "uint n - int k = int (unat n - k)" unfolding u using kn by linarith
  have "0 < int (unat n - k)" using kn by linarith
  then have pos: "(0 < int (unat n - k)) = True" by (rule eqTrueI)
  show ?thesis
    unfolding GetPreParams_def take_locked_parts prod.case Let_def
      n_def [symmetric] k_def [symmetric] len r pos if_True nat_int of_int_of_nat_eq
    by (rule refl)
qed

lemma pool_part_le: "pool_part m c \<le> unat (if c = 0 then 1 else c)"
  by (simp add: pool_part_def)

lemma pool_part_le_depth: "pool_part m c \<le> length (preParams m)"
  by (simp add: pool_part_def)

lemma after_take_fields:
  "config (after_take m c) = config m"
  "generator (after_take m c) = generator m"
  "totalGenerated (after_take m c) = totalGenerated m"
  "preParams (after_take m c) = drop (pool_part m c) (preParams m)"
  "totalServed (after_take m c) = totalServed m + of_nat (pool_part m c)"
  by (simp_all add: after_take_def)

text \<open>The shape of every call: the manager after it and what it returns.\<close>

lemma GetPreParams_cases:
  obtains
    (full) "pool_part m c = unat (if c = 0 then 1 else c)"
      "GetPreParams m c =
        (\<lparr>returned = Inr (take (pool_part m c) (preParams m)),
          refill_started = (int (length (preParams m)) \<le> RefillThreshold (config m)),
          save_started = AutoSave (config m)\<rparr>, after_take m c)"
  | (failed) err m3 where "pool_part m c < unat (if c = 0 then 1 else c)"
      "generate_remaining (unat (if c = 0 then 1 else c) - pool_part m c)
         (take (pool_part m c) (preParams m)) (after_take m c) = (Inl err, m3)"
      "GetPreParams m c =
        (\<lparr>returned = Inl err,
          refill_started = (int (length (preParams m)) \<le> RefillThreshold (config m)),
          save_started = False\<rparr>, m3)"
  | (generated) r m3 where "pool_part m c < unat (if c = 0 then 1 else c)"
      "generate_remaining (unat (if c = 0 then 1 else c) - pool_part m c)
         (take (pool_part m c) (preParams m)) (after_take m c) = (Inr r, m3)"
      "GetPreParams m c =
        (\<lparr>returned = Inr r,
          refill_started = (int (length (preParams m)) \<le> RefillThreshold (config m)),
          save_started = AutoSave (config m3)\<rparr>,
         m3\<lparr>totalServed := totalServed m3
              + of_nat (unat (if c = 0 then 1 else c) - pool_part m c)\<rparr>)"
proof (cases "pool_part m c = unat (if c = 0 then 1 else c)")
  case True
  then show ?thesis using full GetPreParams_full by blast
next
  case False
  then have lt: "pool_part m c < unat (if c = 0 then 1 else c)"
    using pool_part_le [of m c] by linarith
  obtain x m3 where g: "generate_remaining (unat (if c = 0 then 1 else c) - pool_part m c)
         (take (pool_part m c) (preParams m)) (after_take m c) = (x, m3)"
    by (cases "generate_remaining (unat (if c = 0 then 1 else c) - pool_part m c)
         (take (pool_part m c) (preParams m)) (after_take m c)")
  show ?thesis
  proof (cases x)
    case (Inl err)
    then show ?thesis using failed [of err m3] lt g GetPreParams_short [OF lt] by simp
  next
    case (Inr r)
    then show ?thesis using generated [of r m3] lt g GetPreParams_short [OF lt] by simp
  qed
qed

lemma GetPreParams_pool:
  "preParams (snd (GetPreParams m c)) = drop (pool_part m c) (preParams m)"
proof (cases m c rule: GetPreParams_cases)
  case full
  then show ?thesis by (simp add: after_take_fields)
next
  case (failed err m3)
  then show ?thesis
    using gr_fields [of "unat (if c = 0 then 1 else c) - pool_part m c"
        "take (pool_part m c) (preParams m)" "after_take m c"]
    by (simp add: after_take_fields)
next
  case (generated r m3)
  then show ?thesis
    using gr_fields [of "unat (if c = 0 then 1 else c) - pool_part m c"
        "take (pool_part m c) (preParams m)" "after_take m c"]
    by (simp add: after_take_fields)
qed

lemma GetPreParams_generator:
  "config (snd (GetPreParams m c)) = config m \<and>
   library (generator (snd (GetPreParams m c))) = library (generator m) \<and>
   calls (generator m) \<le> calls (generator (snd (GetPreParams m c)))"
proof (cases m c rule: GetPreParams_cases)
  case full
  then show ?thesis by (simp add: after_take_fields)
next
  case (failed err m3)
  then show ?thesis
    using gr_fields [of "unat (if c = 0 then 1 else c) - pool_part m c"
        "take (pool_part m c) (preParams m)" "after_take m c"]
    by (simp add: after_take_fields)
next
  case (generated r m3)
  then show ?thesis
    using gr_fields [of "unat (if c = 0 then 1 else c) - pool_part m c"
        "take (pool_part m c) (preParams m)" "after_take m c"]
    by (simp add: after_take_fields)
qed

lemma GetPreParams_totalGenerated:
  "totalGenerated (snd (GetPreParams m c)) =
     totalGenerated m + of_nat (successes (library (generator m)) (calls (generator m))
        (calls (generator (snd (GetPreParams m c)))))"
proof (cases m c rule: GetPreParams_cases)
  case full
  then show ?thesis by (simp add: after_take_fields successes_same)
next
  case (failed err m3)
  then show ?thesis
    using gr_totalGenerated [of "unat (if c = 0 then 1 else c) - pool_part m c"
        "take (pool_part m c) (preParams m)" "after_take m c"]
    by (simp add: after_take_fields)
next
  case (generated r m3)
  then show ?thesis
    using gr_totalGenerated [of "unat (if c = 0 then 1 else c) - pool_part m c"
        "take (pool_part m c) (preParams m)" "after_take m c"]
    by (simp add: after_take_fields)
qed

lemma GetPreParams_success:
  assumes "returned (fst (GetPreParams m c)) = Inr r"
  shows "length r = unat (if c = 0 then 1 else c)"
    and "take (pool_part m c) r = take (pool_part m c) (preParams m)"
proof -
  have "length r = unat (if c = 0 then 1 else c) \<and>
        take (pool_part m c) r = take (pool_part m c) (preParams m)"
  proof (cases m c rule: GetPreParams_cases)
    case full
    then show ?thesis using assms pool_part_le_depth [of m c] by auto
  next
    case (failed err m3)
    then show ?thesis using assms by simp
  next
    case (generated r' m3)
    then have eq: "r' = r" using assms by simp
    have len: "length (take (pool_part m c) (preParams m)) = pool_part m c"
      using pool_part_le_depth [of m c] by simp
    have f: "fst (generate_remaining (unat (if c = 0 then 1 else c) - pool_part m c)
               (take (pool_part m c) (preParams m)) (after_take m c)) = Inr r'"
      using generated(2) by simp
    have "length r' = length (take (pool_part m c) (preParams m))
            + (unat (if c = 0 then 1 else c) - pool_part m c)"
      by (rule gr_success_length [OF f])
    moreover have "take (length (take (pool_part m c) (preParams m))) r'
             = take (pool_part m c) (preParams m)"
      by (rule gr_success_prefix [OF f])
    ultimately show ?thesis using generated(1) unfolding len eq by simp
  qed
  then show "length r = unat (if c = 0 then 1 else c)"
    and "take (pool_part m c) r = take (pool_part m c) (preParams m)" by simp_all
qed

lemma GetPreParams_totalServed:
  "totalServed (snd (GetPreParams m c)) =
     totalServed m + of_nat (case returned (fst (GetPreParams m c)) of
                               Inl err \<Rightarrow> pool_part m c | Inr r \<Rightarrow> length r)"
proof (cases m c rule: GetPreParams_cases)
  case full
  then show ?thesis using pool_part_le_depth [of m c] by (simp add: after_take_fields)
next
  case (failed err m3)
  then show ?thesis
    using gr_fields [of "unat (if c = 0 then 1 else c) - pool_part m c"
        "take (pool_part m c) (preParams m)" "after_take m c"]
    by (simp add: after_take_fields)
next
  case (generated r m3)
  have len: "length r = unat (if c = 0 then 1 else c)"
    using GetPreParams_success(1) [of m c r] generated(3) by simp
  have "totalServed m3 = totalServed m + of_nat (pool_part m c)"
    using gr_fields [of "unat (if c = 0 then 1 else c) - pool_part m c"
        "take (pool_part m c) (preParams m)" "after_take m c"] generated(2)
    by (simp add: after_take_fields)
  moreover have "pool_part m c + (unat (if c = 0 then 1 else c) - pool_part m c)
      = unat (if c = 0 then 1 else c)"
    using generated(1) by simp
  ultimately show ?thesis
    using generated(3) len
    by (simp add: add.assoc flip: of_nat_add)
qed

lemma GetPreParams_failure:
  assumes "i < unat (if c = 0 then 1 else c) - length (preParams m)"
    and "isl (library (generator m) (calls (generator m) + i))"
  shows "isl (returned (fst (GetPreParams m c)))"
proof -
  have k: "pool_part m c = length (preParams m)"
    using assms(1) by (simp add: pool_part_def)
  show ?thesis
  proof (cases m c rule: GetPreParams_cases)
    case full
    then show ?thesis using assms(1) k by simp
  next
    case (failed err m3)
    then show ?thesis by simp
  next
    case (generated r m3)
    have "isl (fst (generate_remaining (unat (if c = 0 then 1 else c) - pool_part m c)
         (take (pool_part m c) (preParams m)) (after_take m c)))"
      using gr_failure [of i _ "after_take m c"] assms k by (simp add: after_take_fields)
    then show ?thesis using generated(2) by simp
  qed
qed

lemma GetPreParams_norm: "GetPreParams m (if c = 0 then 1 else c) = GetPreParams m c"
  by (cases "c = 0") (simp_all add: GetPreParams_def take_locked_def)

lemma those_map_length: "those (map f xs) = Some ys \<Longrightarrow> length ys = length xs"
proof (induction xs arbitrary: ys)
  case Nil
  then show ?case by simp
next
  case (Cons x xs)
  then show ?case by (auto split: option.splits)
qed

lemma Server_GetPreParams_eq:
  "Server_GetPreParams m c elapsed =
     (if 100 < (if c = 0 then 1 else c)
      then (Inl (Status InvalidArgument ''count must be between 1 and 100''), m)
      else (case returned (fst (GetPreParams m c)) of
              Inl err \<Rightarrow> (Inl (Status Internal (''failed to get pre-params: '' @ err)),
                           snd (GetPreParams m c))
            | Inr paramsList \<Rightarrow>
                (case those (map to_pb paramsList) of
                   None \<Rightarrow> (Inl NilPointerPanic, snd (GetPreParams m c))
                 | Some pbParams \<Rightarrow>
                     (Inr \<lparr>Params = pbParams, GenerationTimeMs = elapsed\<rparr>,
                      snd (GetPreParams m c)))))"
proof -
  obtain out m' where g: "GetPreParams m c = (out, m')"
    by (cases "GetPreParams m c")
  then have g': "GetPreParams m (if c = 0 then 1 else c) = (out, m')"
    by (simp only: GetPreParams_norm)
  show ?thesis
    unfolding Server_GetPreParams_def Let_def g g' by (simp split: sum.splits option.splits)
qed

section \<open>Loading and saving\<close>

lemma validParams_filter: "validParams ps = map the (filter kept ps)"
  unfolding validParams_def
  by (induction ps) (auto simp: kept_def split: option.splits)

lemma validParams_Some: "validParams (map Some xs) = filter (\<lambda>p. PaillierKey p \<noteq> None) xs"
  unfolding validParams_def
  by (induction xs) (auto simp: kept_def)

lemma validParams_keyed:
  "\<forall>p\<in>set xs. PaillierKey p \<noteq> None \<Longrightarrow> validParams (map Some xs) = xs"
  by (simp add: validParams_Some)

text \<open>What \<open>loadFromDisk\<close> keeps of a file.\<close>

lemma loadFromDisk_keeps:
  "(\<forall>d ps. unmarshal bytes = Inr d \<and> PreParams d = Some ps \<longrightarrow>
      preParams (loadFromDisk unmarshal (Content bytes) m) = map the (filter kept ps)) \<and>
   (\<forall>d. unmarshal bytes = Inr d \<and> PreParams d = None \<longrightarrow>
      preParams (loadFromDisk unmarshal (Content bytes) m) = []) \<and>
   (\<forall>err. unmarshal bytes = Inl err \<longrightarrow>
      loadFromDisk unmarshal (Content bytes) m = m) \<and>
   loadFromDisk unmarshal NotExist m = m \<and>
   loadFromDisk unmarshal Unreadable m = m"
  by (auto simp: loadFromDisk_def validParams_filter validParams_def)

lemma NewManager_keyed:
  "\<forall>p\<in>set (preParams (NewManager unmarshal f now gen cfg)). PaillierKey p \<noteq> None"
  by (auto simp: NewManager_def loadFromDisk_def validParams_def kept_def
      split: file_state.splits sum.splits option.splits if_splits)

lemma launcher_defaults:
  "config (NewManager unmarshal f now gen (main_simpleConfig (Inr empty_main_Config))) =
     \<lparr>MinPoolSize = 10, MaxPoolSize = 20, RefillThreshold = 5, PrimeBitSize = 1024,
      PaillierBitSize = 2048, MaxConcurrent = 2, PoolDir = ''./prime_pool'',
      AutoSave = False, BackgroundGen = False, RefillInterval = 30 * second\<rparr>"
  "config (NewManager unmarshal f now gen (main_simpleConfig (Inl err))) =
     \<lparr>MinPoolSize = 10, MaxPoolSize = 20, RefillThreshold = 5, PrimeBitSize = 1024,
      PaillierBitSize = 2048, MaxConcurrent = 2, PoolDir = ''./prime_pool'',
      AutoSave = True, BackgroundGen = True, RefillInterval = 30 * second\<rparr>"
  by (simp_all add: config_NewManager set_defaults_def main_simpleConfig_def loadConfig_def
      empty_main_Config_def Let_def second_def)

section \<open>Steps and runs\<close>

lemma sum_drop_nth:
  "n < length xs \<Longrightarrow> sum_list (map g (drop_nth n xs)) + g (xs ! n) = (sum_list (map g xs) :: nat)"
proof -
  assume n: "n < length xs"
  have "xs = take n xs @ xs ! n # drop (Suc n) xs"
    using n by (rule id_take_nth_drop)
  then have "sum_list (map g xs) = sum_list (map g (take n xs @ xs ! n # drop (Suc n) xs))"
    by simp
  then show ?thesis by (simp add: drop_nth_def)
qed

lemma sum_update_nth:
  "n < length xs \<Longrightarrow>
   sum_list (map g (xs[n := y])) + g (xs ! n) = (sum_list (map g xs) + g y :: nat)"
proof -
  assume n: "n < length xs"
  have a: "xs = take n xs @ xs ! n # drop (Suc n) xs"
    using n by (rule id_take_nth_drop)
  have b: "xs[n := y] = take n xs @ y # drop (Suc n) xs"
    using n by (rule upd_conv_take_nth_drop)
  have "sum_list (map g xs) = sum_list (map g (take n xs @ xs ! n # drop (Suc n) xs))"
    using a by simp
  then show ?thesis unfolding b by simp
qed

lemma set_drop_nth: "set (drop_nth n xs) \<subseteq> set xs"
  unfolding drop_nth_def using set_take_subset [of n xs] set_drop_subset [of "Suc n" xs] by auto

lemma served_balance:
  "ts' = ts + of_nat d \<Longrightarrow> d + p = x \<Longrightarrow> ts' + of_nat p = ts + (of_nat x :: 64 word)"
  by (simp add: add.assoc flip: of_nat_add)

lemma enter_balanced:
  assumes "frames_ok w" and "enter c w = (ob, w')"
  shows "balanced w ob w'"
proof -
  let ?m = "manager w"
  let ?k = "pool_part ?m c"
  let ?n = "(if c = 0 then 1 else c)"
  have len: "length (take ?k (preParams ?m)) = ?k"
    using pool_part_le_depth [of ?m c] by simp
  show ?thesis
  proof (cases "uint ?n - int ?k > 0")
    case True
    then have e: "ob = Silent"
      "w' = w\<lparr>manager := after_take ?m c,
              frames := frames w @ [\<lparr>f_count = ?n, f_result = take ?k (preParams ?m),
                                      f_remaining = nat (uint ?n - int ?k), f_i = 0\<rparr>]\<rparr>"
      using assms(2) unfolding enter_def take_locked_parts prod.case Let_def len by simp_all
    have ip: "in_progress w' = in_progress w + ?k"
      unfolding e in_progress_def using pool_part_le_depth [of ?m c] by (simp add: taken_def)
    have ts: "totalServed (manager w') = totalServed ?m + of_nat ?k"
      unfolding e by (simp add: after_take_fields)
    have "totalServed (manager w') + of_nat (in_progress w)
        = totalServed ?m + of_nat (received ob + lost ob + in_progress w')"
      using ts by (rule served_balance) (simp add: ip e(1))
    moreover have "frames_ok w'"
      using assms(1) unfolding e frames_ok_def by (simp add: frame_ok_def)
    ultimately show ?thesis
      unfolding balanced_def using e by (simp add: after_take_fields successes_same)
  next
    case False
    then have e: "ob = Returned ?n ?k (Inr (take ?k (preParams ?m)))"
      "w' = w\<lparr>manager := after_take ?m c\<rparr>"
      using assms(2) unfolding enter_def take_locked_parts prod.case Let_def len by simp_all
    have ip: "in_progress w' = in_progress w"
      unfolding e in_progress_def by simp
    have ts: "totalServed (manager w') = totalServed ?m + of_nat ?k"
      unfolding e by (simp add: after_take_fields)
    have "totalServed (manager w') + of_nat (in_progress w)
        = totalServed ?m + of_nat (received ob + lost ob + in_progress w')"
      using ts pool_part_le_depth [of ?m c] by (intro served_balance) (simp_all add: ip e(1))
    moreover have "frames_ok w'"
      using assms(1) unfolding e frames_ok_def by simp
    ultimately show ?thesis
      unfolding balanced_def using e by (simp add: after_take_fields successes_same)
  qed
qed

lemma frames_ok_drop: "frames_ok w \<Longrightarrow> frames w' = drop_nth n (frames w) \<Longrightarrow> frames_ok w'"
  unfolding frames_ok_def using set_drop_nth [of n "frames w"] by auto

lemma call_step_balanced:
  assumes ok: "frames_ok w" and st: "call_step n w = (ob, w')"
  shows "balanced w ob w'"
proof (cases "n < length (frames w)")
  case False
  then have "ob = Silent" "w' = w" using st by (simp_all add: call_step_def)
  then show ?thesis using ok by (simp add: balanced_def successes_same)
next
  case n: True
  let ?m = "manager w"
  let ?f = "frames w ! n"
  have fok: "frame_ok ?f" using ok n by (simp add: frames_ok_def)
  show ?thesis
  proof (cases "f_i ?f < f_remaining ?f")
    case loop: True
    obtain r m' where g: "generateSinglePreParams ?m = (r, m')"
      by (cases "generateSinglePreParams ?m")
    have gf: "totalServed m' = totalServed ?m" "library (generator m') = library (generator ?m)"
      "calls (generator m') = Suc (calls (generator ?m))"
      using gsp_fields [of ?m] g by simp_all
    have rl: "isl r = isl (library (generator ?m) (calls (generator ?m)))"
      using gsp_result [of ?m] g by simp
    have tg: "totalGenerated m' = totalGenerated ?m
        + of_nat (successes (library (generator ?m)) (calls (generator ?m)) (calls (generator m')))"
      using gsp_totalGenerated [of ?m] g gf(3) by (simp add: successes_step)
    show ?thesis
    proof (cases r)
      case (Inl err)
      then have e: "ob = Returned (f_count ?f) (taken ?f) (Inl (''failed to generate params: '' @ err))"
        "w' = w\<lparr>manager := m', frames := drop_nth n (frames w)\<rparr>"
        using st n loop g by (simp_all add: call_step_def Let_def)
      have ip: "in_progress w' + taken ?f = in_progress w"
        unfolding e in_progress_def using sum_drop_nth [OF n, of taken] by simp
      have "totalServed (manager w') = totalServed ?m + of_nat 0"
        unfolding e using gf by simp
      then have "totalServed (manager w') + of_nat (in_progress w)
          = totalServed ?m + of_nat (received ob + lost ob + in_progress w')"
        by (rule served_balance) (simp add: ip [symmetric] e(1))
      moreover have "frames_ok w'"
        using frames_ok_drop [OF ok, of w' n] e by simp
      ultimately show ?thesis
        unfolding balanced_def using e gf tg by simp
    next
      case (Inr p)
      let ?f' = "?f\<lparr>f_result := f_result ?f @ [p], f_i := f_i ?f + 1\<rparr>"
      have e: "ob = Silent" "w' = w\<lparr>manager := m', frames := (frames w)[n := ?f']\<rparr>"
        using st n loop g Inr by (simp_all add: call_step_def Let_def)
      have tk: "taken ?f' = taken ?f" by (simp add: taken_def)
      have ip: "in_progress w' = in_progress w"
        unfolding e in_progress_def using sum_update_nth [OF n, of taken ?f'] tk by simp
      have "totalServed (manager w') = totalServed ?m + of_nat 0"
        unfolding e using gf by simp
      then have "totalServed (manager w') + of_nat (in_progress w)
          = totalServed ?m + of_nat (received ob + lost ob + in_progress w')"
        by (rule served_balance) (simp add: ip e(1))
      moreover have "frame_ok ?f'"
        using fok loop by (simp add: frame_ok_def)
      then have "frames_ok w'"
        using ok unfolding e frames_ok_def
        using set_update_subset_insert [of "frames w" n ?f'] by auto
      ultimately show ?thesis
        unfolding balanced_def using e gf tg by simp
    qed
  next
    case fin: False
    have e: "ob = Returned (f_count ?f) (taken ?f) (Inr (f_result ?f))"
      "w' = w\<lparr>manager := ?m\<lparr>totalServed := totalServed ?m + of_nat (f_remaining ?f)\<rparr>,
              frames := drop_nth n (frames w)\<rparr>"
      using st n fin by (simp_all add: call_step_def Let_def)
    have i: "f_i ?f = f_remaining ?f" "f_i ?f \<le> length (f_result ?f)"
      using fok fin by (simp_all add: frame_ok_def)
    have len: "length (f_result ?f) = taken ?f + f_remaining ?f"
      using i by (simp add: taken_def)
    have ip: "in_progress w' + taken ?f = in_progress w"
      unfolding e in_progress_def using sum_drop_nth [OF n, of taken] by simp
    have "totalServed (manager w') = totalServed ?m + of_nat (f_remaining ?f)"
      unfolding e by simp
    then have "totalServed (manager w') + of_nat (in_progress w)
        = totalServed ?m + of_nat (received ob + lost ob + in_progress w')"
      by (rule served_balance) (simp add: ip [symmetric] e(1) len)
    moreover have "frames_ok w'"
      using frames_ok_drop [OF ok, of w' n] e by simp
    ultimately show ?thesis
      unfolding balanced_def using e by (simp add: successes_same)
  qed
qed

lemma worker_step_fields:
  "frames (worker_step n w) = frames w \<and>
   totalServed (manager (worker_step n w)) = totalServed (manager w) \<and>
   preParams (manager (worker_step n w)) = preParams (manager w) \<and>
   config (manager (worker_step n w)) = config (manager w) \<and>
   library (generator (manager (worker_step n w))) = library (generator (manager w)) \<and>
   calls (generator (manager w)) \<le> calls (generator (manager (worker_step n w))) \<and>
   totalGenerated (manager (worker_step n w)) = totalGenerated (manager w)
        + of_nat (successes (library (generator (manager w))) (calls (generator (manager w)))
                    (calls (generator (manager (worker_step n w)))))"
proof (cases "n < length (workers w)")
  case False
  then show ?thesis by (simp add: worker_step_def successes_same)
next
  case n: True
  show ?thesis
  proof (cases "workers w ! n")
    case AtCheck
    then show ?thesis using n by (simp add: worker_step_def successes_same)
  next
    case AtGenerate
    obtain r m' where g: "generateSinglePreParams (manager w) = (r, m')"
      by (cases "generateSinglePreParams (manager w)")
    have m': "manager (worker_step n w) = m'"
      using n AtGenerate g by (cases r) (simp_all add: worker_step_def)
    have fr: "frames (worker_step n w) = frames w"
      using n AtGenerate g by (cases r) (simp_all add: worker_step_def)
    show ?thesis unfolding m' fr
      using gsp_fields [of "manager w"] gsp_totalGenerated [of "manager w"] g
      by (simp add: successes_step)
  next
    case (AtSend p)
    then show ?thesis using n by (simp add: worker_step_def successes_same)
  qed
qed

lemma collect_fields:
  "frames (collect w) = frames w \<and>
   totalServed (manager (collect w)) = totalServed (manager w) \<and>
   totalGenerated (manager (collect w)) = totalGenerated (manager w) \<and>
   config (manager (collect w)) = config (manager w) \<and>
   generator (manager (collect w)) = generator (manager w)"
  by (simp add: collect_def refillPool_collect_def split: list.splits)

lemma quiet_balanced:
  assumes "frames_ok w" and "frames w' = frames w"
    and "totalServed (manager w') = totalServed (manager w)"
    and "library (generator (manager w')) = library (generator (manager w))"
    and "calls (generator (manager w)) \<le> calls (generator (manager w'))"
    and "totalGenerated (manager w') = totalGenerated (manager w)
        + of_nat (successes (library (generator (manager w))) (calls (generator (manager w)))
                    (calls (generator (manager w'))))"
  shows "balanced w Silent w'"
  using assms unfolding balanced_def frames_ok_def in_progress_def by simp

lemma step_balanced:
  assumes "frames_ok w" and "step e w = (ob, w')"
  shows "balanced w ob w'"
proof (cases e)
  case (Enter c)
  then show ?thesis using assms enter_balanced by simp
next
  case (CallStep n)
  then show ?thesis using assms call_step_balanced by simp
next
  case Spawn
  then have e: "ob = Silent" "w' = w\<lparr>workers := workers w @ [AtCheck]\<rparr>"
    using assms(2) by auto
  show ?thesis unfolding e(1)
    by (rule quiet_balanced [OF assms(1)]) (simp_all add: e(2) successes_same)
next
  case (WorkerStep n)
  then have e: "ob = Silent" "w' = worker_step n w" using assms(2) by auto
  show ?thesis unfolding e
    using worker_step_fields [of n w] by (intro quiet_balanced [OF assms(1)]) simp_all
next
  case Collect
  then have e: "ob = Silent" "w' = collect w" using assms(2) by auto
  show ?thesis unfolding e
    using collect_fields [of w]
    by (intro quiet_balanced [OF assms(1)]) (simp_all add: successes_same)
qed

lemma run_balanced:
  "frames_ok w \<Longrightarrow> run evs w = (obs, w') \<Longrightarrow>
   totalServed (manager w') + of_nat (in_progress w)
     = totalServed (manager w)
        + of_nat (sum_list (map received obs) + sum_list (map lost obs) + in_progress w') \<and>
   totalGenerated (manager w') = totalGenerated (manager w)
     + of_nat (successes (library (generator (manager w))) (calls (generator (manager w)))
                 (calls (generator (manager w')))) \<and>
   library (generator (manager w')) = library (generator (manager w)) \<and>
   calls (generator (manager w)) \<le> calls (generator (manager w')) \<and>
   frames_ok w'"
proof (induction evs arbitrary: w obs w')
  case Nil
  then show ?case by (simp add: successes_same)
next
  case (Cons e evs)
  obtain ob w1 where s: "step e w = (ob, w1)" by (cases "step e w")
  obtain obs1 w2 where r: "run evs w1 = (obs1, w2)" by (cases "run evs w1")
  have o: "obs = ob # obs1" and w2: "w' = w2" using Cons.prems(2) s r by simp_all
  have a: "balanced w ob w1" using step_balanced [OF Cons.prems(1) s] .
  have ok1: "frames_ok w1" using a by (simp add: balanced_def)
  note b = Cons.IH [OF ok1 r]
  have lib: "library (generator (manager w1)) = library (generator (manager w))"
    using a by (simp add: balanced_def)
  have le1: "calls (generator (manager w)) \<le> calls (generator (manager w1))"
    using a by (simp add: balanced_def)
  have le2: "calls (generator (manager w1)) \<le> calls (generator (manager w2))" using b by simp
  have sc: "successes (library (generator (manager w))) (calls (generator (manager w)))
               (calls (generator (manager w1)))
          + successes (library (generator (manager w))) (calls (generator (manager w1)))
               (calls (generator (manager w2)))
          = successes (library (generator (manager w))) (calls (generator (manager w)))
               (calls (generator (manager w2)))"
    using successes_append [OF le1 le2] .
  have gen: "totalGenerated (manager w2) = totalGenerated (manager w)
      + of_nat (successes (library (generator (manager w))) (calls (generator (manager w)))
                  (calls (generator (manager w2))))"
    using a b lib unfolding sc [symmetric] balanced_def by (simp add: add.assoc)
  have a1: "totalServed (manager w1) + of_nat (in_progress w)
        = totalServed (manager w) + of_nat (received ob + lost ob + in_progress w1)"
    using a by (simp add: balanced_def)
  have b1: "totalServed (manager w2) + of_nat (in_progress w1)
        = totalServed (manager w1)
        + of_nat (sum_list (map received obs1) + sum_list (map lost obs1) + in_progress w2)"
    using b by simp
  have "totalServed (manager w2) + of_nat (in_progress w) + of_nat (in_progress w1)
      = totalServed (manager w) + of_nat (received ob + lost ob + in_progress w1)
        + of_nat (sum_list (map received obs1) + sum_list (map lost obs1) + in_progress w2)"
    using a1 b1 by (metis (no_types, lifting) add.assoc add.commute)
  then have served: "totalServed (manager w2) + of_nat (in_progress w)
      = totalServed (manager w)
        + of_nat (sum_list (map received (ob # obs1)) + sum_list (map lost (ob # obs1))
                  + in_progress w2)"
    by (simp add: algebra_simps)
  show ?case unfolding o w2 using served gen lib b le1 le2 by simp
qed

section \<open>A call run alone\<close>

lemma run_idle:
  "length (frames w) \<le> n \<Longrightarrow> run (replicate j (CallStep n)) w = (replicate j Silent, w)"
  by (induction j) (simp_all add: call_step_def)

lemma drop_nth_last: "drop_nth (length xs) (xs @ [x]) = xs"
  by (simp add: drop_nth_def)

text \<open>
  A call in progress that is left to run alone does what the loop of \<open>GetPreParams\<close>
  does.
\<close>

lemma call_steps_alone:
  assumes "frames w = fs @ [f]" and "f_i f \<le> f_remaining f"
    and "generate_remaining (f_remaining f - f_i f) (f_result f) (manager w) = (x, m3)"
    and "run (replicate (Suc (f_remaining f - f_i f)) (CallStep (length fs))) w = (obs, w')"
  shows "filter (\<lambda>ob. ob \<noteq> Silent) obs = [Returned (f_count f) (taken f) x] \<and>
         manager w' = (if isl x then m3
                       else m3\<lparr>totalServed := totalServed m3 + of_nat (f_remaining f)\<rparr>) \<and>
         frames w' = fs \<and> paramsCh w' = paramsCh w \<and> workers w' = workers w"
  using assms
proof (induction "f_remaining f - f_i f" arbitrary: w f obs w')
  case 0
  then have fin: "\<not> f_i f < f_remaining f" by simp
  have n: "length fs < length (frames w)" and nth: "frames w ! length fs = f"
    using "0.prems"(1) by simp_all
  have x: "x = Inr (f_result f)" "m3 = manager w"
    using "0.prems"(3) "0.hyps" [symmetric] by simp_all
  have "run [CallStep (length fs)] w = (obs, w')"
    using "0.prems"(4) "0.hyps" by simp
  then have "obs = [Returned (f_count f) (taken f) (Inr (f_result f))]"
    and "w' = w\<lparr>manager := (manager w)\<lparr>totalServed := totalServed (manager w)
                                           + of_nat (f_remaining f)\<rparr>,
              frames := drop_nth (length fs) (frames w)\<rparr>"
    using n nth fin by (auto simp: call_step_def Let_def)
  then show ?case
    using x "0.prems"(1) by (simp add: drop_nth_last)
next
  case (Suc d)
  then have loop: "f_i f < f_remaining f" by simp
  have d: "f_remaining f - f_i f = Suc d" using Suc.hyps(2) by simp
  have n: "length fs < length (frames w)" and nth: "frames w ! length fs = f"
    using Suc.prems(1) by simp_all
  obtain r m' where g: "generateSinglePreParams (manager w) = (r, m')"
    by (cases "generateSinglePreParams (manager w)")
  show ?case
  proof (cases r)
    case (Inl err)
    let ?w1 = "w\<lparr>manager := m', frames := drop_nth (length fs) (frames w)\<rparr>"
    have x: "x = Inl (''failed to generate params: '' @ err)" "m3 = m'"
      using Suc.prems(3) d g Inl by simp_all
    have s: "step (CallStep (length fs)) w
        = (Returned (f_count f) (taken f) (Inl (''failed to generate params: '' @ err)), ?w1)"
      using n nth loop g Inl by (simp add: call_step_def Let_def)
    have fr: "frames ?w1 = fs" using Suc.prems(1) by (simp add: drop_nth_last)
    have idle: "run (replicate (Suc d) (CallStep (length fs))) ?w1 = (replicate (Suc d) Silent, ?w1)"
      by (rule run_idle) (simp add: fr)
    have "run (replicate (Suc (Suc d)) (CallStep (length fs))) w
        = (Returned (f_count f) (taken f) (Inl (''failed to generate params: '' @ err))
             # replicate (Suc d) Silent, ?w1)"
      using s idle by simp
    then have o: "obs = Returned (f_count f) (taken f) (Inl (''failed to generate params: '' @ err))
             # replicate (Suc d) Silent" and w': "w' = ?w1"
      using Suc.prems(4) d by simp_all
    show ?thesis unfolding o w' x using fr by simp
  next
    case (Inr p)
    let ?f' = "f\<lparr>f_result := f_result f @ [p], f_i := f_i f + 1\<rparr>"
    let ?w1 = "w\<lparr>manager := m', frames := (frames w)[length fs := ?f']\<rparr>"
    have s: "step (CallStep (length fs)) w = (Silent, ?w1)"
      using n nth loop g Inr by (simp add: call_step_def Let_def)
    obtain obs1 where r1: "run (replicate (Suc d) (CallStep (length fs))) ?w1 = (obs1, w')"
      and o: "obs = Silent # obs1"
      using Suc.prems(4) d s by (auto split: prod.splits)
    have fr: "frames ?w1 = fs @ [?f']" using Suc.prems(1) by simp
    have d': "d = f_remaining ?f' - f_i ?f'" using d by simp
    have le: "f_i ?f' \<le> f_remaining ?f'" using loop by simp
    have g1: "generate_remaining (f_remaining ?f' - f_i ?f') (f_result ?f') (manager ?w1) = (x, m3)"
      using Suc.prems(3) d g Inr d' [symmetric] by simp
    have r1': "run (replicate (Suc (f_remaining ?f' - f_i ?f')) (CallStep (length fs))) ?w1 = (obs1, w')"
      using r1 d' by simp
    note ih = Suc.hyps(1) [OF d' fr le g1 r1']
    have tk: "taken ?f' = taken f" by (simp add: taken_def)
    show ?thesis
      using ih unfolding o tk by simp
  qed
qed

lemma enter_full:
  assumes "pool_part (manager w) c = unat (if c = 0 then 1 else c)"
  shows "enter c w =
     (Returned (if c = 0 then 1 else c) (pool_part (manager w) c)
        (Inr (take (pool_part (manager w) c) (preParams (manager w)))),
      w\<lparr>manager := after_take (manager w) c\<rparr>)"
proof -
  have len: "length (take (pool_part (manager w) c) (preParams (manager w))) = pool_part (manager w) c"
    using pool_part_le_depth [of "manager w" c] by simp
  have "\<not> uint (if c = 0 then 1 else c) - int (pool_part (manager w) c) > 0"
    unfolding assms by simp
  then show ?thesis
    unfolding enter_def take_locked_parts prod.case Let_def len by simp
qed

lemma enter_short:
  assumes "pool_part (manager w) c < unat (if c = 0 then 1 else c)"
  shows "enter c w =
     (Silent,
      w\<lparr>manager := after_take (manager w) c,
        frames := frames w @ [\<lparr>f_count = (if c = 0 then 1 else c),
                                f_result = take (pool_part (manager w) c) (preParams (manager w)),
                                f_remaining = unat (if c = 0 then 1 else c) - pool_part (manager w) c,
                                f_i = 0\<rparr>]\<rparr>)"
proof -
  let ?n = "(if c = 0 then 1 else c)"
  let ?k = "pool_part (manager w) c"
  have len: "length (take ?k (preParams (manager w))) = ?k"
    using pool_part_le_depth [of "manager w" c] by simp
  have u: "uint ?n = int (unat ?n)" by simp
  have pos: "uint ?n - int ?k > 0" unfolding u using assms by linarith
  have r: "nat (uint ?n - int ?k) = unat ?n - ?k" unfolding u using assms by linarith
  show ?thesis
    unfolding enter_def take_locked_parts prod.case Let_def len r using pos by simp
qed

text \<open>
  A call that runs from its entry to its return with no other step in between does
  what \<open>GetPreParams\<close> does: it returns the same and leaves the same manager.
\<close>

lemma call_alone_is_GetPreParams:
  assumes "run (Enter c # replicate (Suc (unat (if c = 0 then 1 else c) - pool_part (manager w) c))
                             (CallStep (length (frames w)))) w = (obs, w')"
  shows "filter (\<lambda>ob. ob \<noteq> Silent) obs
           = [Returned (if c = 0 then 1 else c) (pool_part (manager w) c)
                (returned (fst (GetPreParams (manager w) c)))] \<and>
         manager w' = snd (GetPreParams (manager w) c) \<and>
         frames w' = frames w \<and> paramsCh w' = paramsCh w \<and> workers w' = workers w"
proof -
  let ?m = "manager w"
  let ?n = "(if c = 0 then 1 else c)"
  let ?k = "pool_part ?m c"
  let ?j = "Suc (unat ?n - ?k)"
  show ?thesis
  proof (cases ?m c rule: GetPreParams_cases)
    case full
    let ?w1 = "w\<lparr>manager := after_take ?m c\<rparr>"
    have idle: "run (replicate ?j (CallStep (length (frames w)))) ?w1 = (replicate ?j Silent, ?w1)"
      by (rule run_idle) simp
    have "run (Enter c # replicate ?j (CallStep (length (frames w)))) w
        = (Returned ?n ?k (Inr (take ?k (preParams ?m))) # replicate ?j Silent, ?w1)"
      using enter_full [OF full(1)] idle by simp
    then have "obs = Returned ?n ?k (Inr (take ?k (preParams ?m))) # replicate ?j Silent"
      and "w' = ?w1"
      using assms by simp_all
    then show ?thesis using full(2) by simp
  next
    case (failed err m3)
    let ?f = "\<lparr>f_count = ?n, f_result = take ?k (preParams ?m),
               f_remaining = unat ?n - ?k, f_i = 0\<rparr>"
    let ?w1 = "w\<lparr>manager := after_take ?m c, frames := frames w @ [?f]\<rparr>"
    obtain obs1 where r1: "run (replicate ?j (CallStep (length (frames w)))) ?w1 = (obs1, w')"
      and o: "obs = Silent # obs1"
      using assms enter_short [OF failed(1)] by (auto split: prod.splits)
    have tk: "taken ?f = ?k"
      using pool_part_le_depth [of ?m c] by (simp add: taken_def)
    have "filter (\<lambda>ob. ob \<noteq> Silent) obs1 = [Returned (f_count ?f) (taken ?f) (Inl err)] \<and>
         manager w' = (if isl (Inl err :: string + PreParamsData list) then m3
                       else m3\<lparr>totalServed := totalServed m3 + of_nat (f_remaining ?f)\<rparr>) \<and>
         frames w' = frames w \<and> paramsCh w' = paramsCh ?w1 \<and> workers w' = workers ?w1"
      by (rule call_steps_alone [where w = ?w1 and f = ?f and fs = "frames w"])
         (use failed(2) r1 in simp_all)
    then show ?thesis unfolding o tk using failed(3) by simp
  next
    case (generated r m3)
    let ?f = "\<lparr>f_count = ?n, f_result = take ?k (preParams ?m),
               f_remaining = unat ?n - ?k, f_i = 0\<rparr>"
    let ?w1 = "w\<lparr>manager := after_take ?m c, frames := frames w @ [?f]\<rparr>"
    obtain obs1 where r1: "run (replicate ?j (CallStep (length (frames w)))) ?w1 = (obs1, w')"
      and o: "obs = Silent # obs1"
      using assms enter_short [OF generated(1)] by (auto split: prod.splits)
    have tk: "taken ?f = ?k"
      using pool_part_le_depth [of ?m c] by (simp add: taken_def)
    have "filter (\<lambda>ob. ob \<noteq> Silent) obs1 = [Returned (f_count ?f) (taken ?f) (Inr r)] \<and>
         manager w' = (if isl (Inr r :: string + PreParamsData list) then m3
                       else m3\<lparr>totalServed := totalServed m3 + of_nat (f_remaining ?f)\<rparr>) \<and>
         frames w' = frames w \<and> paramsCh w' = paramsCh ?w1 \<and> workers w' = workers ?w1"
      by (rule call_steps_alone [where w = ?w1 and f = ?f and fs = "frames w"])
         (use generated(2) r1 in simp_all)
    then show ?thesis unfolding o tk using generated(3) by simp
  qed
qed

section \<open>The bound on the pool and the keys, over a run\<close>

lemma enter_fields:
  "preParams (manager (snd (enter c w))) = drop (pool_part (manager w) c) (preParams (manager w))"
  "config (manager (snd (enter c w))) = config (manager w)"
  "paramsCh (snd (enter c w)) = paramsCh w"
  "workers (snd (enter c w)) = workers w"
proof -
  have "preParams (manager (snd (enter c w))) = drop (pool_part (manager w) c) (preParams (manager w))
      \<and> config (manager (snd (enter c w))) = config (manager w)
      \<and> paramsCh (snd (enter c w)) = paramsCh w \<and> workers (snd (enter c w)) = workers w"
  proof (cases "pool_part (manager w) c = unat (if c = 0 then 1 else c)")
    case True
    then show ?thesis using enter_full [OF True] by (simp add: after_take_fields)
  next
    case False
    then have lt: "pool_part (manager w) c < unat (if c = 0 then 1 else c)"
      using pool_part_le [of "manager w" c] by linarith
    show ?thesis using enter_short [OF lt] by (simp add: after_take_fields)
  qed
  then show "preParams (manager (snd (enter c w))) = drop (pool_part (manager w) c) (preParams (manager w))"
    "config (manager (snd (enter c w))) = config (manager w)"
    "paramsCh (snd (enter c w)) = paramsCh w"
    "workers (snd (enter c w)) = workers w"
    by simp_all
qed

lemma step_manager_pool:
  assumes "step e w = (ob, w')"
  shows "config (manager w') = config (manager w) \<and>
         (int (length (preParams (manager w))) \<le> MaxPoolSize (config (manager w)) \<longrightarrow>
          int (length (preParams (manager w'))) \<le> MaxPoolSize (config (manager w)))"
proof (cases e)
  case (Enter c)
  show ?thesis
  proof (cases "pool_part (manager w) c = unat (if c = 0 then 1 else c)")
    case True
    then show ?thesis using assms Enter enter_full [OF True]
      by (auto simp: after_take_fields)
  next
    case False
    then have lt: "pool_part (manager w) c < unat (if c = 0 then 1 else c)"
      using pool_part_le [of "manager w" c] by linarith
    show ?thesis using assms Enter enter_short [OF lt]
      by (auto simp: after_take_fields)
  qed
next
  case (CallStep n)
  obtain r m' where g: "generateSinglePreParams (manager w) = (r, m')"
    by (cases "generateSinglePreParams (manager w)")
  have gf: "config m' = config (manager w)" "preParams m' = preParams (manager w)"
    using gsp_fields [of "manager w"] g by simp_all
  show ?thesis using assms CallStep g gf
    by (cases r) (auto simp: call_step_def Let_def split: if_splits)
next
  case Spawn
  then show ?thesis using assms by auto
next
  case (WorkerStep n)
  then have "w' = worker_step n w" using assms by auto
  then show ?thesis using worker_step_fields [of n w] by simp
next
  case Collect
  then have "w' = collect w" using assms by auto
  then show ?thesis
    by (auto simp: collect_def refillPool_collect_def split: list.splits)
qed

lemma step_keeps_bound:
  assumes "step e w = (ob, w')"
    and "int (length (preParams (manager w))) \<le> MaxPoolSize (config (manager w))"
  shows "int (length (preParams (manager w'))) \<le> MaxPoolSize (config (manager w'))"
  using step_manager_pool [OF assms(1)] assms(2) by simp

lemma run_keeps_bound:
  "run evs w = (obs, w') \<Longrightarrow>
   int (length (preParams (manager w))) \<le> MaxPoolSize (config (manager w)) \<Longrightarrow>
   int (length (preParams (manager w'))) \<le> MaxPoolSize (config (manager w'))"
proof (induction evs arbitrary: w obs w')
  case Nil
  then show ?case by simp
next
  case (Cons e evs)
  obtain ob w1 where s: "step e w = (ob, w1)" by (cases "step e w")
  obtain obs1 w2 where r: "run evs w1 = (obs1, w2)" by (cases "run evs w1")
  have w2: "w' = w2" using Cons.prems(1) s r by simp
  have "int (length (preParams (manager w1))) \<le> MaxPoolSize (config (manager w1))"
    using step_keeps_bound [OF s Cons.prems(2)] .
  then show ?case unfolding w2 using Cons.IH [OF r] by simp
qed

lemma gsp_keyed:
  assumes "keyed_library (library (generator m))"
    and "fst (generateSinglePreParams m) = Inr p"
  shows "PaillierKey p \<noteq> None"
proof -
  obtain q where q: "library (generator m) (calls (generator m)) = Inr q"
    and p: "PaillierKey p = PaillierKey q"
    using assms(2)
    by (auto simp: generateSinglePreParams_def GeneratePreParams_def split: sum.splits)
  have "PaillierKey q \<noteq> None"
    using assms(1) q unfolding keyed_library_def
    by (metis (mono_tags, lifting) sum.simps(6))
  then show ?thesis using p by simp
qed

lemma keyed_update:
  "\<forall>x\<in>set xs. keyed_worker x \<Longrightarrow> keyed_worker y \<Longrightarrow> \<forall>x\<in>set (xs[n := y]). keyed_worker x"
  using set_update_subset_insert [of xs n y] by auto

lemma keyed_drop_nth:
  "\<forall>x\<in>set xs. keyed_worker x \<Longrightarrow> \<forall>x\<in>set (drop_nth n xs). keyed_worker x"
  using set_drop_nth [of n xs] by auto

lemma worker_step_keeps_keys:
  assumes "keyed_library (library (generator (manager w)))" and "keyed_world w"
  shows "keyed_world (worker_step n w)"
proof (cases "n < length (workers w)")
  case False
  then show ?thesis using assms(2) by (simp add: worker_step_def)
next
  case n: True
  have kw: "\<forall>x\<in>set (workers w). keyed_worker x" using assms(2) by (simp add: keyed_world_def)
  show ?thesis
  proof (cases "workers w ! n")
    case AtCheck
    then show ?thesis
      using n assms(2) keyed_update [OF kw, of AtGenerate n] keyed_drop_nth [OF kw, of n]
      by (simp add: worker_step_def keyed_world_def keyed_worker_def)
  next
    case AtGenerate
    obtain r m' where g: "generateSinglePreParams (manager w) = (r, m')"
      by (cases "generateSinglePreParams (manager w)")
    have pm: "preParams m' = preParams (manager w)"
      using gsp_fields(2) [of "manager w"] g by simp
    show ?thesis
    proof (cases r)
      case (Inl err)
      then show ?thesis
        using n AtGenerate g pm assms(2) keyed_drop_nth [OF kw, of n]
        by (simp add: worker_step_def keyed_world_def)
    next
      case (Inr p)
      have "PaillierKey p \<noteq> None"
        using gsp_keyed [OF assms(1), of p] g Inr by simp
      then have "keyed_worker (AtSend p)" by (simp add: keyed_worker_def)
      then show ?thesis
        using n AtGenerate g Inr pm assms(2) keyed_update [OF kw, of "AtSend p" n]
        by (simp add: worker_step_def keyed_world_def)
    qed
  next
    case (AtSend p)
    have "keyed_worker (AtSend p)"
      using kw n AtSend by (metis nth_mem)
    then have "PaillierKey p \<noteq> None" by (simp add: keyed_worker_def)
    then show ?thesis
      using n AtSend assms(2) keyed_update [OF kw, of AtCheck n]
      by (simp add: worker_step_def keyed_world_def keyed_worker_def)
  qed
qed

lemma step_keeps_keys:
  assumes "step e w = (ob, w')"
    and "keyed_library (library (generator (manager w)))"
    and "keyed_world w"
  shows "keyed_world w'"
proof (cases e)
  case (Enter c)
  then have w': "w' = snd (enter c w)" using assms(1) by simp
  have sub: "set (drop (pool_part (manager w) c) (preParams (manager w)))
      \<subseteq> set (preParams (manager w))"
    by (rule set_drop_subset)
  show ?thesis
    using assms(3) sub unfolding w' keyed_world_def enter_fields by blast
next
  case (CallStep n)
  obtain r m' where g: "generateSinglePreParams (manager w) = (r, m')"
    by (cases "generateSinglePreParams (manager w)")
  have gf: "preParams m' = preParams (manager w)"
    using gsp_fields [of "manager w"] g by simp
  show ?thesis using assms(1,3) CallStep g gf
    by (cases r) (auto simp: call_step_def Let_def keyed_world_def split: if_splits)
next
  case Spawn
  then show ?thesis using assms(1,3) by (auto simp: keyed_world_def keyed_worker_def)
next
  case (WorkerStep n)
  then have "w' = worker_step n w" using assms(1) by auto
  then show ?thesis using worker_step_keeps_keys [OF assms(2,3)] by simp
next
  case Collect
  then have "w' = collect w" using assms(1) by auto
  then show ?thesis using assms(3)
    by (auto simp: collect_def refillPool_collect_def keyed_world_def split: list.splits)
qed

lemma run_keeps_keys:
  "run evs w = (obs, w') \<Longrightarrow> keyed_library (library (generator (manager w))) \<Longrightarrow>
   keyed_world w \<Longrightarrow> frames_ok w \<Longrightarrow> keyed_world w'"
proof (induction evs arbitrary: w obs w')
  case Nil
  then show ?case by simp
next
  case (Cons e evs)
  obtain ob w1 where s: "step e w = (ob, w1)" by (cases "step e w")
  obtain obs1 w2 where r: "run evs w1 = (obs1, w2)" by (cases "run evs w1")
  have w2: "w' = w2" using Cons.prems(1) s r by simp
  have k1: "keyed_world w1" using step_keeps_keys [OF s Cons.prems(2) Cons.prems(3)] .
  have b: "balanced w ob w1" using step_balanced [OF Cons.prems(4) s] .
  have "library (generator (manager w1)) = library (generator (manager w))"
    using b by (simp add: balanced_def)
  then have kl: "keyed_library (library (generator (manager w1)))" using Cons.prems(2) by simp
  have ok1: "frames_ok w1" using b by (simp add: balanced_def)
  show ?case unfolding w2 using Cons.IH [OF r kl k1 ok1] .
qed

section \<open>The launcher's configuration\<close>

lemma launcher_never_zero:
  "MaxConcurrent (main_simpleConfig decoded) \<noteq> 0"
  by (cases decoded) (simp_all add: main_simpleConfig_def loadConfig_def Let_def)

section \<open>Claims\<close>

text \<open>
  Claim C1. A call whose pool portion falls short of the count asked for, and for which
  one of the synchronous generations of the shortfall fails, returns an error and no
  list; the service answers \<open>Internal\<close>; the bundles the call took out of the pool stay
  out of it (the shortfall means it took all of them, so the pool is empty afterwards).
\<close>

theorem shortfall_failure_is_total:
  assumes "(if c = 0 then 1 else c) \<le> 100"
    and "i < unat (if c = 0 then 1 else c) - length (preParams m)"
    and "isl (library (generator m) (calls (generator m) + i))"
  shows "(\<exists>err. returned (fst (GetPreParams m c)) = Inl err) \<and>
         (\<exists>msg. fst (Server_GetPreParams m c elapsed) = Inl (Status Internal msg)) \<and>
         preParams (snd (Server_GetPreParams m c elapsed)) = [] \<and>
         preParams (snd (GetPreParams m c)) = []"
proof -
  have fl: "isl (returned (fst (GetPreParams m c)))"
    using GetPreParams_failure [OF assms(2) assms(3)] .
  then obtain err where err: "returned (fst (GetPreParams m c)) = Inl err"
    by (cases "returned (fst (GetPreParams m c))") auto
  have k: "pool_part m c = length (preParams m)"
    using assms(2) by (simp add: pool_part_def)
  have pool: "preParams (snd (GetPreParams m c)) = []"
    using GetPreParams_pool [of m c] k by simp
  have acc: "\<not> 100 < (if c = 0 then 1 else c)"
    using assms(1) by (simp add: not_less)
  have srv: "Server_GetPreParams m c elapsed =
      (Inl (Status Internal (''failed to get pre-params: '' @ err)), snd (GetPreParams m c))"
    unfolding Server_GetPreParams_eq using acc err by simp
  show ?thesis using err pool srv by simp
qed

theorem shortfall_failure_is_total_witness:
  "(\<exists>err. returned (fst (GetPreParams (manager_with [sample 1] quiet_generator) 2)) = Inl err) \<and>
   (\<exists>msg. fst (Server_GetPreParams (manager_with [sample 1] quiet_generator) 2 0)
            = Inl (Status Internal msg)) \<and>
   preParams (snd (Server_GetPreParams (manager_with [sample 1] quiet_generator) 2 0)) = [] \<and>
   preParams (snd (GetPreParams (manager_with [sample 1] quiet_generator) 2)) = []"
proof -
  let ?m = "manager_with [sample 1] quiet_generator"
  have a: "(if (2::32 word) = 0 then 1 else (2::32 word)) \<le> 100" by simp
  have b: "0 < unat (if (2::32 word) = 0 then 1 else (2::32 word)) - length (preParams ?m)"
    by (simp add: manager_with_def)
  have c: "isl (library (generator ?m) (calls (generator ?m) + 0))"
    by (simp add: manager_with_def quiet_generator_def)
  show ?thesis by (rule shortfall_failure_is_total [OF a b c])
qed

text \<open>
  Claim C2. For a count \<open>n \<ge> 1\<close> the locked section takes \<open>min n depth\<close> bundles from
  the front of the pool, in the pool's order, leaves the rest, and adds that number to
  \<open>totalServed\<close>; the list a successful call returns starts with those bundles.
\<close>

theorem take_is_fifo_prefix:
  "c \<noteq> 0 \<Longrightarrow>
   (case take_locked m c of
      (refill, n, result, m') \<Rightarrow>
        result = take (min (unat c) (length (preParams m))) (preParams m) \<and>
        preParams m' = drop (min (unat c) (length (preParams m))) (preParams m) \<and>
        totalServed m' = totalServed m + of_nat (min (unat c) (length (preParams m)))) \<and>
   preParams (snd (GetPreParams m c)) = drop (min (unat c) (length (preParams m))) (preParams m) \<and>
   (\<forall>r. returned (fst (GetPreParams m c)) = Inr r \<longrightarrow>
        take (min (unat c) (length (preParams m))) r
          = take (min (unat c) (length (preParams m))) (preParams m))"
proof -
  assume nz: "c \<noteq> 0"
  then have k: "pool_part m c = min (unat c) (length (preParams m))"
    by (simp add: pool_part_def)
  have 1: "(case take_locked m c of
      (refill, n, result, m') \<Rightarrow>
        result = take (min (unat c) (length (preParams m))) (preParams m) \<and>
        preParams m' = drop (min (unat c) (length (preParams m))) (preParams m) \<and>
        totalServed m' = totalServed m + of_nat (min (unat c) (length (preParams m))))"
    unfolding take_locked_parts k by (simp add: after_take_def k)
  have 2: "preParams (snd (GetPreParams m c)) = drop (min (unat c) (length (preParams m))) (preParams m)"
    using GetPreParams_pool [of m c] k by simp
  have 3: "take (min (unat c) (length (preParams m))) r
          = take (min (unat c) (length (preParams m))) (preParams m)"
    if "returned (fst (GetPreParams m c)) = Inr r" for r
    using GetPreParams_success(2) [OF that] k by simp
  show ?thesis using 1 2 3 by blast
qed

theorem take_is_fifo_prefix_witness:
  "returned (fst (GetPreParams (manager_with [sample 1, sample 2] stub_generator) 1))
     = Inr [sample 1] \<and>
   preParams (snd (GetPreParams (manager_with [sample 1, sample 2] stub_generator) 1))
     = [sample 2]"
proof -
  let ?m = "manager_with [sample 1, sample 2] stub_generator"
  have nz: "(1::32 word) \<noteq> 0" by simp
  have r: "returned (fst (GetPreParams ?m 1)) = Inr [sample 1]" by code_simp
  have "preParams (snd (GetPreParams ?m 1))
          = drop (min (unat (1::32 word)) (length (preParams ?m))) (preParams ?m)"
    using take_is_fifo_prefix [OF nz, of ?m] by blast
  then have "preParams (snd (GetPreParams ?m 1)) = [sample 2]"
    by (simp add: manager_with_def)
  then show ?thesis using r by simp
qed

text \<open>
  Claim C3, at the input where the code departs from it: a pool file with three
  complete entries, loaded under a configuration whose \<open>MaxPoolSize\<close> is 2, gives a
  pool of three.
\<close>

theorem load_exceeds_max_size:
  "length (preParams (NewManager plain_unmarshal (Content three_entries) 0 quiet_generator small_config)) = 3
   \<and> MaxPoolSize (config (NewManager plain_unmarshal (Content three_entries) 0 quiet_generator small_config)) = 2"
  by (simp add: NewManager_def loadFromDisk_def plain_unmarshal_def three_entries_def
      validParams_def kept_def sample_def set_defaults_def small_config_def Let_def second_def)

text \<open>
  Claim C4, at the input where the code departs from it: of three entries in the pool
  file, the second without \<open>n_tildei\<close>, all three are loaded, none is discarded; the
  entry kept has a nil \<open>NTildei\<close>, and serving it makes the service dereference the nil
  pointer.
\<close>

theorem entry_without_n_tildei_is_kept:
  "length (preParams (NewManager plain_unmarshal (Content missing_n_tildei) 0 stub_generator zero_config)) = 3 \<and>
   fst (Server_GetPreParams
          (NewManager plain_unmarshal (Content missing_n_tildei) 0 stub_generator zero_config) 2 0)
     = Inl NilPointerPanic"
  by code_simp

text \<open>
  Claim C5. A count above 100 is answered \<open>InvalidArgument\<close> with the manager untouched;
  a count of 0 is served exactly as a count of 1; a call that succeeds returns as many
  bundles as the (normalised) count.
\<close>

theorem count_validation:
  "(100 < (if c = 0 then 1 else c) \<longrightarrow>
      Server_GetPreParams m c elapsed =
        (Inl (Status InvalidArgument ''count must be between 1 and 100''), m)) \<and>
   Server_GetPreParams m 0 elapsed = Server_GetPreParams m 1 elapsed \<and>
   GetPreParams m 0 = GetPreParams m 1 \<and>
   (\<forall>resp. fst (Server_GetPreParams m c elapsed) = Inr resp \<longrightarrow>
      (if c = 0 then 1 else c) \<le> 100 \<and>
      length (Params resp) = unat (if c = 0 then 1 else c)) \<and>
   (\<forall>r. returned (fst (GetPreParams m c)) = Inr r \<longrightarrow>
      length r = unat (if c = 0 then 1 else c))"
proof -
  have a: "100 < (if c = 0 then 1 else c) \<longrightarrow>
      Server_GetPreParams m c elapsed =
        (Inl (Status InvalidArgument ''count must be between 1 and 100''), m)"
    by (simp add: Server_GetPreParams_eq)
  have z: "GetPreParams m 0 = GetPreParams m 1"
    using GetPreParams_norm [of m 0] by simp
  have b: "Server_GetPreParams m 0 elapsed = Server_GetPreParams m 1 elapsed"
    unfolding Server_GetPreParams_eq z by simp
  have d: "length r = unat (if c = 0 then 1 else c)"
    if "returned (fst (GetPreParams m c)) = Inr r" for r
    using GetPreParams_success(1) [OF that] .
  have e: "(if c = 0 then 1 else c) \<le> 100 \<and>
      length (Params resp) = unat (if c = 0 then 1 else c)"
    if h: "fst (Server_GetPreParams m c elapsed) = Inr resp" for resp
  proof -
    have acc: "\<not> 100 < (if c = 0 then 1 else c)"
      using h by (auto simp: Server_GetPreParams_eq split: if_splits)
    obtain l where l: "returned (fst (GetPreParams m c)) = Inr l"
      using h acc by (auto simp: Server_GetPreParams_eq split: if_splits sum.splits)
    obtain pbs where pbs: "those (map to_pb l) = Some pbs"
      using h acc l by (auto simp: Server_GetPreParams_eq split: if_splits option.splits)
    have "resp = \<lparr>Params = pbs, GenerationTimeMs = elapsed\<rparr>"
      using h acc l pbs by (auto simp: Server_GetPreParams_eq split: if_splits)
    then have "length (Params resp) = length l"
      using those_map_length [OF pbs] by simp
    then show ?thesis using d [OF l] acc by (simp add: not_less)
  qed
  show ?thesis using a b z d e by blast
qed

theorem count_validation_witness:
  "Server_GetPreParams (manager_with [sample 1] stub_generator) 101 0
     = (Inl (Status InvalidArgument ''count must be between 1 and 100''),
        manager_with [sample 1] stub_generator) \<and>
   (\<exists>resp. fst (Server_GetPreParams (manager_with [sample 1] stub_generator) 2 0) = Inr resp
       \<and> length (Params resp) = 2)"
proof -
  let ?m = "manager_with [sample 1] stub_generator"
  have big: "100 < (if (101::32 word) = 0 then 1 else (101::32 word))" by simp
  have a: "Server_GetPreParams ?m 101 0
     = (Inl (Status InvalidArgument ''count must be between 1 and 100''), ?m)"
    using count_validation [of 101 ?m 0] big by blast
  have r: "fst (Server_GetPreParams ?m 2 0)
     = Inr \<lparr>Params = [the (to_pb (sample 1)), the (to_pb (sample 3))], GenerationTimeMs = 0\<rparr>"
    by code_simp
  have "length (Params \<lparr>Params = [the (to_pb (sample 1)), the (to_pb (sample 3))],
           GenerationTimeMs = 0\<rparr>) = unat (if (2::32 word) = 0 then 1 else (2::32 word))"
    using count_validation [of 2 ?m 0] r by blast
  then show ?thesis using a r by simp
qed

text \<open>
  Claim C6, as the code has it. At the end of every run that starts with no call in
  progress, whatever the order of the steps of its calls and workers, \<open>totalServed\<close>
  has grown by the bundles returned to callers, plus the bundles that failed calls
  took out of the pool, plus the bundles that calls still in progress have taken out
  of the pool; \<open>totalGenerated\<close> has grown by the number of successful returns of the
  library.
\<close>

theorem counters_in_every_run:
  assumes "frames w = []" and "run evs w = (obs, w')"
  shows "totalServed (manager w')
           = totalServed (manager w)
             + of_nat (sum_list (map received obs) + sum_list (map lost obs) + in_progress w') \<and>
         totalGenerated (manager w')
           = totalGenerated (manager w)
             + of_nat (successes (library (generator (manager w))) (calls (generator (manager w)))
                         (calls (generator (manager w'))))"
proof -
  have ok: "frames_ok w" using assms(1) by (simp add: frames_ok_def)
  have z: "in_progress w = 0" using assms(1) by (simp add: in_progress_def)
  show ?thesis using run_balanced [OF ok assms(2)] unfolding z by simp
qed

theorem counters_in_every_run_witness:
  "fst (run [Spawn, Enter 3, WorkerStep 0, CallStep 0, WorkerStep 0, CallStep 0, WorkerStep 0,
             Collect, CallStep 0, Enter 1] (world_with [sample 1] stub_generator))
     = [Silent, Silent, Silent, Silent, Silent, Silent, Silent, Silent,
        Returned 3 1 (Inr [sample 1, sample 3, sample 5]), Returned 1 1 (Inr [sample 4])] \<and>
   totalServed (manager (snd (run [Spawn, Enter 3, WorkerStep 0, CallStep 0, WorkerStep 0,
             CallStep 0, WorkerStep 0, Collect, CallStep 0, Enter 1]
             (world_with [sample 1] stub_generator)))) = 4 \<and>
   totalGenerated (manager (snd (run [Spawn, Enter 3, WorkerStep 0, CallStep 0, WorkerStep 0,
             CallStep 0, WorkerStep 0, Collect, CallStep 0, Enter 1]
             (world_with [sample 1] stub_generator)))) = 3"
proof -
  let ?w = "world_with [sample 1] stub_generator"
  let ?evs = "[Spawn, Enter 3, WorkerStep 0, CallStep 0, WorkerStep 0, CallStep 0, WorkerStep 0,
             Collect, CallStep 0, Enter 1]"
  let ?obs = "[Silent, Silent, Silent, Silent, Silent, Silent, Silent, Silent,
        Returned 3 1 (Inr [sample 1, sample 3, sample 5]), Returned 1 1 (Inr [sample 4])]"
  have o: "fst (run ?evs ?w) = ?obs" by code_simp
  have c: "calls (generator (manager (snd (run ?evs ?w)))) = 3" by code_simp
  have p: "in_progress (snd (run ?evs ?w)) = 0" by code_simp
  have r: "run ?evs ?w = (?obs, snd (run ?evs ?w))"
    using o by (metis prod.collapse)
  have f0: "frames ?w = []" by (simp add: world_with_def)
  have s0: "totalServed (manager ?w) = 0" "totalGenerated (manager ?w) = 0"
    "calls (generator (manager ?w)) = 0"
    "library (generator (manager ?w)) = (\<lambda>k. Inr (sample (int k + 3)))"
    by (simp_all add: world_with_def manager_with_def stub_generator_def)
  have su: "successes (\<lambda>k. Inr (sample (int k + 3))) 0 3 = 3"
    by (simp add: successes_def)
  have "totalServed (manager (snd (run ?evs ?w))) = 4 \<and>
        totalGenerated (manager (snd (run ?evs ?w))) = 3"
    using counters_in_every_run [OF f0 r] unfolding s0 c su p by simp
  then show ?thesis using o by simp
qed

text \<open>
  Against claim C6 as stated: a call for two bundles on a pool of one, with a
  generator that fails, returns nothing, is over, and leaves \<open>totalServed\<close> at 1.
\<close>

theorem failed_call_counterexample:
  "sum_list (map received (fst (run [Enter 2, CallStep 0] (world_with [sample 1] quiet_generator)))) = 0 \<and>
   frames (snd (run [Enter 2, CallStep 0] (world_with [sample 1] quiet_generator))) = [] \<and>
   totalServed (manager (world_with [sample 1] quiet_generator)) = 0 \<and>
   totalServed (manager (snd (run [Enter 2, CallStep 0] (world_with [sample 1] quiet_generator)))) = 1"
  by code_simp

text \<open>
  Claim C7, as the code has it. The refill is started if and only if the depth of the
  pool when the call begins, before anything is taken, is at most \<open>RefillThreshold\<close>.
\<close>

theorem refill_signal_at_entry:
  "refill_started (fst (GetPreParams m c)) =
     (int (length (preParams m)) \<le> RefillThreshold (config m))"
  by (cases m c rule: GetPreParams_cases) simp_all

text \<open>
  Against claim C7 as stated: a pool of two with a threshold of one serves one bundle,
  the depth after the removal is at the threshold, and no refill is started.
\<close>

theorem refill_signal_counterexample:
  "int (length (preParams (snd (GetPreParams (manager_with [sample 1, sample 2] stub_generator) 1))))
      \<le> RefillThreshold (config (snd (GetPreParams (manager_with [sample 1, sample 2] stub_generator) 1)))
   \<and> \<not> refill_started (fst (GetPreParams (manager_with [sample 1, sample 2] stub_generator) 1))"
  by code_simp

text \<open>
  Claim C8. Saving a pool whose bundles have their Paillier keys, with a codec that
  round-trips the saved structure, and loading the file again gives the same list of
  bundles, in a fresh manager as in any other.
\<close>

theorem save_then_load:
  assumes "\<not> isSaving m" and "writable d"
    and "round_trip marshal unmarshal
           \<lparr>PreParams = Some (map Some (preParams m)), SavedAt = now, Config = Some (config m)\<rparr>"
    and "\<forall>p\<in>set (preParams m). PaillierKey p \<noteq> None"
  shows "preParams (loadFromDisk unmarshal (pool_file (snd (saveToDisk marshal now m d))) m')
           = preParams m \<and>
         preParams (NewManager unmarshal (pool_file (snd (saveToDisk marshal now m d))) now' gen cfg)
           = preParams m"
proof -
  let ?data = "\<lparr>PreParams = Some (map Some (preParams m)), SavedAt = now, Config = Some (config m)\<rparr>"
  obtain bytes where mb: "marshal ?data = Inr bytes"
    using assms(3) by (auto simp: round_trip_def split: sum.splits)
  obtain d' where ub: "unmarshal bytes = Inr d'" and pp: "PreParams d' = Some (map Some (preParams m))"
    using assms(3) mb by (auto simp: round_trip_def split: sum.splits)
  have f: "pool_file (snd (saveToDisk marshal now m d)) = Content bytes"
    using assms(1,2) mb by (simp add: saveToDisk_def Let_def)
  have "preParams (loadFromDisk unmarshal (Content bytes) x) = preParams m" for x
    using ub pp validParams_keyed [OF assms(4)] by (simp add: loadFromDisk_def)
  then show ?thesis unfolding f NewManager_def by simp
qed

theorem save_then_load_witness:
  "preParams (NewManager plain_unmarshal
      (pool_file (snd (saveToDisk plain_marshal 7
          (manager_with [sample 1, sample 2, sample 3] stub_generator)
          \<lparr>pool_file = NotExist, writable = True\<rparr>))) 9 quiet_generator zero_config)
   = [sample 1, sample 2, sample 3]"
proof -
  let ?m = "manager_with [sample 1, sample 2, sample 3] stub_generator"
  let ?d = "\<lparr>pool_file = NotExist, writable = True\<rparr> :: pool_data disk"
  have a: "\<not> isSaving ?m" by (simp add: manager_with_def)
  have b: "writable ?d" by simp
  have c: "round_trip plain_marshal plain_unmarshal
           \<lparr>PreParams = Some (map Some (preParams ?m)), SavedAt = 7, Config = Some (config ?m)\<rparr>"
    by (simp add: round_trip_def plain_marshal_def plain_unmarshal_def)
  have e: "\<forall>p\<in>set (preParams ?m). PaillierKey p \<noteq> None"
    by (simp add: manager_with_def sample_def)
  have "preParams (NewManager plain_unmarshal
      (pool_file (snd (saveToDisk plain_marshal 7 ?m ?d))) 9 quiet_generator zero_config)
      = preParams ?m"
    using save_then_load [OF a b c e] by blast
  then show ?thesis by (simp add: manager_with_def)
qed



text \<open>
  Claim C10. The client turns a response with an empty parameter list into an error: a
  list it returns is never empty.
\<close>

theorem client_never_returns_empty:
  "(\<forall>result. Client_GetPreParams rpc c = Inr result \<longrightarrow> result \<noteq> []) \<and>
   (\<forall>resp. rpc (if c = 0 then 1 else c) = Inr resp \<and> Params resp = [] \<longrightarrow>
       Client_GetPreParams rpc c = Inl ''no parameters returned from service'')"
  by (auto simp: Client_GetPreParams_def Let_def split: sum.splits if_splits)

theorem client_never_returns_empty_witness:
  "Client_GetPreParams (\<lambda>n. Inr \<lparr>Params = [], GenerationTimeMs = 0\<rparr>) 3
     = Inl ''no parameters returned from service''"
proof -
  let ?rpc = "\<lambda>n::32 word. (Inr \<lparr>Params = [], GenerationTimeMs = 0\<rparr> :: string + GetPreParamsResponse)"
  have "?rpc (if (3::32 word) = 0 then 1 else (3::32 word)) = Inr \<lparr>Params = [], GenerationTimeMs = 0\<rparr>
        \<and> Params \<lparr>Params = [], GenerationTimeMs = 0\<rparr> = []"
    by simp
  then show ?thesis
    using client_never_returns_empty [of ?rpc 3] by blast
qed

end
